theory Spec2Isabelle
  imports Main
begin

section \<open>Exceptions\<close>

text \<open>
  The exceptions the modelled code can raise. The source raises Python's built-in
  exceptions; each constructor names the raise site it stands for.
  \<^item> \<open>DuplicateName\<close>, \<open>DuplicateId\<close>: the two \<open>ValueError\<close>s of \<open>SpecContainer.add\<close>
    ("duplicate name", "duplicate id");
  \<^item> \<open>NotIndexed\<close>: the \<open>ValueError(item)\<close> of \<open>SpecContainer.index\<close>;
  \<^item> \<open>KeyError k\<close>: a dictionary or attribute lookup that misses key \<open>k\<close>;
  \<^item> \<open>IndexError\<close>: a list index out of range;
  \<^item> \<open>TooManyArguments maxargs nargs\<close>, \<open>MultipleValues key\<close>, \<open>UnknownArgument key\<close>:
    the three \<open>TypeError\<close>s that \<open>Method._type_error\<close> raises for \<open>Method.arguments\<close>;
  \<^item> \<open>TypeError\<close>: any other \<open>TypeError\<close> (\<open>int\<close> of a list, subscripting \<open>None\<close>);
  \<^item> \<open>AttributeError\<close>: \<open>int\<close> of a \<open>Node\<close> instance;
  \<^item> \<open>IntValueError\<close>: the \<open>ValueError\<close> of \<open>int\<close> on text that is no integer.
\<close>

datatype error =
    DuplicateName string
  | DuplicateId int
  | NotIndexed
  | KeyError string
  | IndexError
  | TooManyArguments nat nat
  | MultipleValues string
  | UnknownArgument string
  | TypeError
  | AttributeError
  | IntValueError

text \<open>The error kinds of the specification, as sets of the exceptions above.\<close>

fun DuplicateIdentity :: "error \<Rightarrow> bool" where
  "DuplicateIdentity (DuplicateName n) = True"
| "DuplicateIdentity (DuplicateId i) = True"
| "DuplicateIdentity e = False"

fun NotFound :: "error \<Rightarrow> bool" where
  "NotFound (KeyError k) = True"
| "NotFound NotIndexed = True"
| "NotFound e = False"

section \<open>SpecContainer\<close>

text \<open>
  \<open>SpecContainer\<close> holds four attributes: the list \<open>items\<close> and the dictionaries
  \<open>byname\<close>, \<open>byid\<close> and \<open>indexes\<close>. The container is generic over its items, which
  only have to expose \<open>.name\<close> and \<open>.id\<close>; the two attribute reads are the
  parameters \<open>nm\<close> and \<open>idf\<close> of the operations below. Python keys \<open>indexes\<close>
  by the identity of the item. Items that live in the store are addresses here, and the
  others (fields, constants) are values: two of them in one container differ in their
  names, so that they are different values as they are different objects.
\<close>

record 'a container =
  items :: "'a list"
  byname :: "string \<rightharpoonup> 'a"
  byid :: "int \<rightharpoonup> 'a"
  indexes :: "'a \<rightharpoonup> nat"

definition SpecContainer :: "'a container" where
  "SpecContainer = \<lparr>items = [], byname = Map.empty, byid = Map.empty, indexes = Map.empty\<rparr>"

definition has_key :: "('k \<rightharpoonup> 'v) \<Rightarrow> 'k \<Rightarrow> bool" where
  "has_key d k = (d k \<noteq> None)"

text \<open>
  \<open>add\<close> mutates the container, so the model returns the container as it is when the
  call ends, together with the exception raised, if any.
\<close>

definition add :: "('a \<Rightarrow> string) \<Rightarrow> ('a \<Rightarrow> int) \<Rightarrow> 'a container \<Rightarrow> 'a \<Rightarrow> error option \<times> 'a container" where
  "add nm idf self item =
     (if has_key (byname self) (nm item) then (Some (DuplicateName (nm item)), self)
      else if has_key (byid self) (idf item) then (Some (DuplicateId (idf item)), self)
      else
        let self = self\<lparr>indexes := (indexes self)(item \<mapsto> length (items self))\<rparr>;
            self = self\<lparr>items := items self @ [item]\<rparr>;
            self = self\<lparr>byname := (byname self)(nm item \<mapsto> item)\<rparr>;
            self = self\<lparr>byid := (byid self)(idf item \<mapsto> item)\<rparr>
        in (None, self))"

definition index :: "'a container \<Rightarrow> 'a \<Rightarrow> error + nat" where
  "index self item = (case indexes self item of Some i \<Rightarrow> Inr i | None \<Rightarrow> Inl NotIndexed)"

text \<open>
  A sequence of \<open>add\<close> calls on one container; a caller that catches the exception of a
  failed call goes on with the container as that call left it.
\<close>

fun adds :: "('a \<Rightarrow> string) \<Rightarrow> ('a \<Rightarrow> int) \<Rightarrow> 'a container \<Rightarrow> 'a list \<Rightarrow> 'a container" where
  "adds nm idf self [] = self"
| "adds nm idf self (x # xs) = adds nm idf (snd (add nm idf self x)) xs"

text \<open>What \<open>add\<close> keeps true between the four attributes.\<close>

definition registry_inv :: "('a \<Rightarrow> string) \<Rightarrow> ('a \<Rightarrow> int) \<Rightarrow> 'a container \<Rightarrow> bool" where
  "registry_inv nm idf c \<longleftrightarrow>
     distinct (map nm (items c)) \<and> distinct (map idf (items c)) \<and>
     (\<forall>x \<in> set (items c). byname c (nm x) = Some x) \<and>
     (\<forall>n. n \<notin> nm ` set (items c) \<longrightarrow> byname c n = None) \<and>
     (\<forall>x \<in> set (items c). byid c (idf x) = Some x) \<and>
     (\<forall>i. i \<notin> idf ` set (items c) \<longrightarrow> byid c i = None) \<and>
     (\<forall>i < length (items c). indexes c (items c ! i) = Some i) \<and>
     (\<forall>x. x \<notin> set (items c) \<longrightarrow> indexes c x = None)"


section \<open>Field and Method\<close>

text \<open>
  The Python values that flow through \<open>Method.arguments\<close>: the defaults of
  \<open>Method.DEFAULTS\<close> and whatever the caller passes.
\<close>

datatype pyval =
    PyNone
  | PyBool bool
  | PyInt int
  | PyStr string
  | PyDict "(pyval \<times> pyval) list"

record Field =
  field_name :: string
  field_id :: int
  field_type :: string
  field_docs :: "string option list"

text \<open>
  Class and Method objects are mutated after they have been put into a container, and
  are shared between containers and response lists, so they live in a store and are
  referred to by address. \<open>Method.responses\<close> first holds the response names, later
  the Method objects themselves.
\<close>

type_synonym addr = nat

datatype response = Name string | Ref addr

record Method =
  method_klass :: addr
  method_name :: string
  method_id :: int
  method_content :: bool
  method_responses :: "response list"
  method_synchronous :: bool
  method_fields :: "Field container"
  method_description :: "string option"
  method_docs :: "string option list"
  method_response :: bool

definition DEFAULTS :: "string \<rightharpoonup> pyval" where
  "DEFAULTS = [''bit'' \<mapsto> PyBool False,
               ''shortstr'' \<mapsto> PyStr '''',
               ''longstr'' \<mapsto> PyStr '''',
               ''table'' \<mapsto> PyDict [],
               ''octet'' \<mapsto> PyInt 0,
               ''short'' \<mapsto> PyInt 0,
               ''long'' \<mapsto> PyInt 0,
               ''longlong'' \<mapsto> PyInt 0,
               ''timestamp'' \<mapsto> PyInt 0,
               ''content'' \<mapsto> PyNone]"

text \<open>
  The keyword arguments are a dictionary: a list of pairs with distinct keys, in the
  order in which \<open>kwargs.items()\<close> yields them. \<open>pop\<close> removes a key. The model
  of \<open>arguments\<close> starts where its body starts, with \<open>args\<close> and \<open>kwargs\<close> bound.
\<close>

type_synonym kwargs = "(string \<times> pyval) list"

definition pop :: "kwargs \<Rightarrow> string \<Rightarrow> kwargs" where
  "pop kwargs k = filter (\<lambda>(k', v). k' \<noteq> k) kwargs"

text \<open>
  The first loop of \<open>Method.arguments\<close>, over the fields still to be visited; it
  returns \<open>result\<close> and what is left of \<open>kwargs\<close>.
\<close>

fun fill :: "Field container \<Rightarrow> pyval list \<Rightarrow> Field list \<Rightarrow> kwargs \<Rightarrow> pyval list
    \<Rightarrow> error + (pyval list \<times> kwargs)" where
  "fill flds args [] kwargs result = Inr (result, kwargs)"
| "fill flds args (f # fs) kwargs result =
     (case index flds f of
        Inl e \<Rightarrow> Inl e
      | Inr idx \<Rightarrow>
          if idx < length args then fill flds args fs kwargs (result @ [args ! idx])
          else (case map_of kwargs (field_name f) of
                  Some v \<Rightarrow> fill flds args fs (pop kwargs (field_name f)) (result @ [v])
                | None \<Rightarrow>
                    (case DEFAULTS (field_type f) of
                       None \<Rightarrow> Inl (KeyError (field_type f))
                     | Some d \<Rightarrow> fill flds args fs kwargs (result @ [d]))))"

definition arguments :: "Method \<Rightarrow> pyval list \<Rightarrow> kwargs \<Rightarrow> error + pyval list" where
  "arguments self args kwargs =
     (let nargs = length args + length kwargs;
          maxargs = length (items (method_fields self))
      in if nargs > maxargs then Inl (TooManyArguments maxargs nargs)
         else (case fill (method_fields self) args (items (method_fields self)) kwargs [] of
                 Inl e \<Rightarrow> Inl e
               | Inr (result, kwargs) \<Rightarrow>
                   (case kwargs of
                      [] \<Rightarrow> Inr result
                    | (key, val) # rest \<Rightarrow>
                        if has_key (byname (method_fields self)) key
                        then Inl (MultipleValues key)
                        else Inl (UnknownArgument key))))"

text \<open>
  What the first loop of \<open>Method.arguments\<close> computes, stated without the loop: the
  value for the field at position \<open>i\<close>, the values for a run of fields starting at
  position \<open>k\<close>, and the keyword arguments that no field at or after position
  \<open>length args\<close> has consumed.
\<close>

definition val_of :: "pyval list \<Rightarrow> kwargs \<Rightarrow> nat \<Rightarrow> Field \<Rightarrow> pyval option" where
  "val_of args kw i f =
     (if i < length args then Some (args ! i)
      else case map_of kw (field_name f) of Some v \<Rightarrow> Some v | None \<Rightarrow> DEFAULTS (field_type f))"

fun vals :: "pyval list \<Rightarrow> kwargs \<Rightarrow> nat \<Rightarrow> Field list \<Rightarrow> pyval list" where
  "vals args kw k [] = []"
| "vals args kw k (f # fs) = the (val_of args kw k f) # vals args kw (Suc k) fs"

definition unconsumed :: "pyval list \<Rightarrow> nat \<Rightarrow> Field list \<Rightarrow> kwargs \<Rightarrow> kwargs" where
  "unconsumed args k fs kw =
     filter (\<lambda>(key, v). key \<notin> field_name ` set (drop (length args - k) fs)) kw"


text \<open>
  An example: the method \<open>publish\<close> of class \<open>basic\<close>, with the fields
  \<open>reserved\<close>, \<open>exchange\<close> and \<open>routing_key\<close> and with content.
\<close>

definition publish_fields :: "Field list" where
  "publish_fields =
     [\<lparr>field_name = ''reserved'', field_id = 0, field_type = ''short'', field_docs = []\<rparr>,
      \<lparr>field_name = ''exchange'', field_id = 1, field_type = ''shortstr'', field_docs = []\<rparr>,
      \<lparr>field_name = ''routing_key'', field_id = 2, field_type = ''shortstr'', field_docs = []\<rparr>]"

definition publish :: Method where
  "publish =
     \<lparr>method_klass = 0, method_name = ''publish'', method_id = 40, method_content = True,
      method_responses = [], method_synchronous = False,
      method_fields = adds field_name field_id SpecContainer publish_fields,
      method_description = None, method_docs = [], method_response = False\<rparr>"

section \<open>Node\<close>

text \<open>
  A \<open>Node\<close> of \<open>xmlutil\<close>: tag name, attributes (\<open>None\<close> for the root that
  \<open>parse\<close> creates, a mapping for every node the SAX builder creates), optional text
  and the children in document order. The parent link is left out: the position of a
  node among the children of its parent (\<open>Node.index\<close>) is taken where the node is
  taken from its parent.
\<close>

datatype Node =
  Node (node_name: string) (node_attrs: "(string \<rightharpoonup> string) option")
       (node_text: "string option") (node_children: "Node list")

text \<open>
  The keys \<open>__getitem__\<close> distinguishes (a callable, a string, an integer), and what
  it returns for them: the text of an attribute, a list of children, one child.
\<close>

datatype key = Callable "Node \<Rightarrow> bool" | StrKey string | IntKey int

datatype item = Text string | Nodes "Node list" | Child Node

definition attribute :: "Node \<Rightarrow> string \<Rightarrow> error + string" where
  "attribute self k =
     (case node_attrs self of
        None \<Rightarrow> Inl TypeError
      | Some attrs \<Rightarrow> (case attrs k of None \<Rightarrow> Inl (KeyError k) | Some v \<Rightarrow> Inr v))"

definition children_named :: "Node \<Rightarrow> string \<Rightarrow> Node list" where
  "children_named self name = filter (\<lambda>nd. node_name nd = name) (node_children self)"

definition getint :: "Node \<Rightarrow> int \<Rightarrow> error + Node" where
  "getint self i =
     (let cs = node_children self
      in if 0 \<le> i \<and> i < int (length cs) then Inr (cs ! nat i)
         else if i < 0 \<and> - i \<le> int (length cs) then Inr (cs ! nat (int (length cs) + i))
         else Inl IndexError)"

definition getstr :: "Node \<Rightarrow> string \<Rightarrow> error + item" where
  "getstr self name =
     (if take 1 name = ''@''
      then (case attribute self (drop 1 name) of Inl e \<Rightarrow> Inl e | Inr v \<Rightarrow> Inr (Text v))
      else Inr (Nodes (children_named self name)))"

fun getitem :: "Node \<Rightarrow> key \<Rightarrow> error + item" where
  "getitem self (Callable p) = Inr (Nodes (filter p (node_children self)))"
| "getitem self (StrKey name) = getstr self name"
| "getitem self (IntKey i) = (case getint self i of Inl e \<Rightarrow> Inl e | Inr nd \<Rightarrow> Inr (Child nd))"

text \<open>\<open>has\<close> catches \<open>KeyError\<close> and \<open>IndexError\<close> only.\<close>

definition has :: "Node \<Rightarrow> key \<Rightarrow> error + bool" where
  "has self k =
     (case getitem self k of
        Inr result \<Rightarrow> Inr True
      | Inl (KeyError x) \<Rightarrow> Inr False
      | Inl IndexError \<Rightarrow> Inr False
      | Inl e \<Rightarrow> Inl e)"

text \<open>\<open>get\<close>, with Python's \<open>None\<close> as \<open>None\<close>.\<close>

definition get :: "Node \<Rightarrow> key \<Rightarrow> item option \<Rightarrow> error + item option" where
  "get self k dflt =
     (case has self k of
        Inl e \<Rightarrow> Inl e
      | Inr True \<Rightarrow> (case getitem self k of Inl e \<Rightarrow> Inl e | Inr v \<Rightarrow> Inr (Some v))
      | Inr False \<Rightarrow> Inr dflt)"

text \<open>
  Python's \<open>int\<close> on text, for decimal ASCII text: surrounding white space, an optional
  sign, one or more digits; anything else raises \<open>ValueError\<close>.
\<close>

definition is_space :: "char \<Rightarrow> bool" where
  "is_space c = (c \<in> set [CHR '' '', CHR 0x09, CHR 0x0A, CHR 0x0B, CHR 0x0C, CHR 0x0D])"

definition strip :: "string \<Rightarrow> string" where
  "strip s = rev (dropWhile is_space (rev (dropWhile is_space s)))"

definition is_digit :: "char \<Rightarrow> bool" where
  "is_digit c = (48 \<le> (of_char c :: nat) \<and> (of_char c :: nat) \<le> 57)"

definition digits_value :: "string \<Rightarrow> int" where
  "digits_value ds = foldl (\<lambda>a c. 10 * a + (int (of_char c) - 48)) 0 ds"

definition py_int :: "string \<Rightarrow> error + int" where
  "py_int s =
     (let t = strip s;
          neg = (take 1 t = ''-'');
          ds = (if take 1 t = ''-'' \<or> take 1 t = ''+'' then drop 1 t else t)
      in if ds \<noteq> [] \<and> list_all is_digit ds
         then Inr (if neg then - digits_value ds else digits_value ds)
         else Inl IntValueError)"

text \<open>\<open>int\<close> of what \<open>get\<close> can return: of a list it raises \<open>TypeError\<close>, of a
  \<open>Node\<close> instance, which has no \<open>__int__\<close>, \<open>AttributeError\<close>.\<close>

fun int_of_item :: "item \<Rightarrow> error + int" where
  "int_of_item (Text s) = py_int s"
| "int_of_item (Nodes l) = Inl TypeError"
| "int_of_item (Child nd) = Inl AttributeError"

definition get_bool :: "Node \<Rightarrow> key \<Rightarrow> bool \<Rightarrow> error + bool" where
  "get_bool self k dflt =
     (case get self k None of
        Inl e \<Rightarrow> Inl e
      | Inr None \<Rightarrow> Inr dflt
      | Inr (Some v) \<Rightarrow> (case int_of_item v of Inl e \<Rightarrow> Inl e | Inr n \<Rightarrow> Inr (n \<noteq> 0)))"

section \<open>Alias resolution\<close>

text \<open>
  The \<open>while\<close> loop of \<open>load_fields\<close> that follows a type through \<open>domains\<close>.
  The loop has no bound, so the model is a partial function: \<open>None\<close> is a loop that
  does not end.
\<close>

partial_function (option) resolve_type :: "(string \<rightharpoonup> string) \<Rightarrow> string \<Rightarrow> string option" where
  "resolve_type domains ty =
     (if has_key domains ty \<and> domains ty \<noteq> Some ty
      then resolve_type domains (the (domains ty))
      else Some ty)"

declare resolve_type.simps [code]

text \<open>
  One step of the loop as a relation on type names, and the names at which the loop
  stops: those that are no key of \<open>domains\<close> or are mapped to themselves.
\<close>

definition alias_step :: "(string \<rightharpoonup> string) \<Rightarrow> (string \<times> string) set" where
  "alias_step domains = {(t, u). domains t = Some u \<and> u \<noteq> t}"

definition fixed_type :: "(string \<rightharpoonup> string) \<Rightarrow> string \<Rightarrow> bool" where
  "fixed_type domains t \<longleftrightarrow> domains t = None \<or> domains t = Some t"


section \<open>The loader\<close>

text \<open>
  A run of loader code either raises, returns, or does not end (the alias loop):
  \<open>None\<close> is a run that does not end, \<open>Some (Inl e)\<close> one that raises \<open>e\<close>. An
  exception unwinds through every loop of \<open>load\<close>, none of which catches it.
\<close>

type_synonym 'a exec = "(error + 'a) option"

definition returns :: "'a \<Rightarrow> 'a exec" where
  "returns x = Some (Inr x)"

definition raises :: "error \<Rightarrow> 'a exec" where
  "raises e = Some (Inl e)"

definition and_then :: "'a exec \<Rightarrow> ('a \<Rightarrow> 'b exec) \<Rightarrow> 'b exec" where
  "and_then m f = (case m of None \<Rightarrow> None | Some (Inl e) \<Rightarrow> Some (Inl e) | Some (Inr x) \<Rightarrow> f x)"

text \<open>\<open>for x in xs: body\<close>, the body a function of the loop variable and the state.\<close>

fun for_each :: "('a \<Rightarrow> 's \<Rightarrow> 's exec) \<Rightarrow> 'a list \<Rightarrow> 's \<Rightarrow> 's exec" where
  "for_each body [] s = returns s"
| "for_each body (x # xs) s = and_then (body x s) (for_each body xs)"

text \<open>A list comprehension whose element expression can raise.\<close>

fun comprehension :: "('a \<Rightarrow> error + 'b) \<Rightarrow> 'a list \<Rightarrow> error + 'b list" where
  "comprehension f [] = Inr []"
| "comprehension f (x # xs) =
     (case f x of
        Inl e \<Rightarrow> Inl e
      | Inr y \<Rightarrow> (case comprehension f xs of Inl e \<Rightarrow> Inl e | Inr ys \<Rightarrow> Inr (y # ys)))"

definition lookup :: "(string \<rightharpoonup> 'v) \<Rightarrow> string \<Rightarrow> error + 'v" where
  "lookup d k = (case d k of None \<Rightarrow> Inl (KeyError k) | Some v \<Rightarrow> Inr v)"

definition add_or_raise :: "('a \<Rightarrow> string) \<Rightarrow> ('a \<Rightarrow> int) \<Rightarrow> 'a container \<Rightarrow> 'a \<Rightarrow> error + 'a container" where
  "add_or_raise nm idf self item =
     (case add nm idf self item of (Some e, c) \<Rightarrow> Inl e | (None, c) \<Rightarrow> Inr c)"

definition int_attribute :: "Node \<Rightarrow> string \<Rightarrow> error + int" where
  "int_attribute nd k = (case attribute nd k of Inl e \<Rightarrow> Inl e | Inr v \<Rightarrow> py_int v)"

subsection \<open>pythonize and get_docs\<close>

definition KEYWORDS :: "string \<rightharpoonup> string" where
  "KEYWORDS = [''global'' \<mapsto> ''global_'', ''return'' \<mapsto> ''return_'']"

definition pythonize :: "string \<Rightarrow> string" where
  "pythonize name =
     (let name = map (\<lambda>c. if c = CHR '' '' \<or> c = CHR ''-'' then CHR ''_'' else c) name
      in case KEYWORDS name of Some k \<Rightarrow> k | None \<Rightarrow> name)"

definition get_docs :: "Node \<Rightarrow> string option list" where
  "get_docs nd = map node_text (children_named nd ''doc'')"

subsection \<open>The object model\<close>

record Constant =
  constant_name :: string
  constant_id :: int
  constant_klass :: "string option"
  constant_docs :: "string option list"

record Class =
  class_name :: string
  class_id :: int
  class_handler :: string
  class_fields :: "Field container"
  class_methods :: "addr container"
  class_docs :: "string option list"

record Spec =
  spec_major :: int
  spec_minor :: int
  spec_file :: string
  spec_constants :: "Constant container"
  spec_classes :: "addr container"

text \<open>
  The \<open>Spec\<close> under construction, with the Class and Method objects created so far.
  The address of an object is its position in its list; a new object goes to the end.
\<close>

record store =
  spec :: Spec
  class_objs :: "Class list"
  method_objs :: "Method list"

definition klass_at :: "store \<Rightarrow> addr \<Rightarrow> Class" where
  "klass_at st k = class_objs st ! k"

definition method_at :: "store \<Rightarrow> addr \<Rightarrow> Method" where
  "method_at st a = method_objs st ! a"

definition set_klass :: "addr \<Rightarrow> (Class \<Rightarrow> Class) \<Rightarrow> store \<Rightarrow> store" where
  "set_klass k f st = st\<lparr>class_objs := (class_objs st)[k := f (class_objs st ! k)]\<rparr>"

definition set_method :: "addr \<Rightarrow> (Method \<Rightarrow> Method) \<Rightarrow> store \<Rightarrow> store" where
  "set_method a f st = st\<lparr>method_objs := (method_objs st)[a := f (method_objs st ! a)]\<rparr>"

subsection \<open>load_fields\<close>

text \<open>
  The children of \<open>nd\<close> with tag \<open>field\<close>, each with its position among all
  children of \<open>nd\<close>, which is what \<open>f_nd.index()\<close> returns.
\<close>

definition field_nodes :: "Node \<Rightarrow> (nat \<times> Node) list" where
  "field_nodes nd = filter (\<lambda>(i, c). node_name c = ''field'') (enumerate 0 (node_children nd))"

definition load_field :: "(string \<rightharpoonup> string) \<Rightarrow> nat \<times> Node \<Rightarrow> Field container \<Rightarrow> Field container exec" where
  "load_field domains inode l =
     (case inode of (i, f_nd) \<Rightarrow>
        (case (case attribute f_nd ''domain'' of
                 Inl (KeyError k) \<Rightarrow> attribute f_nd ''type''
               | r \<Rightarrow> r) of
           Inl e \<Rightarrow> raises e
         | Inr ty \<Rightarrow>
             (case resolve_type domains ty of
                None \<Rightarrow> None
              | Some ty \<Rightarrow>
                  (case attribute f_nd ''name'' of
                     Inl e \<Rightarrow> raises e
                   | Inr name \<Rightarrow>
                       Some (add_or_raise field_name field_id l
                         \<lparr>field_name = pythonize name, field_id = int i,
                          field_type = ty, field_docs = get_docs f_nd\<rparr>)))))"

definition load_fields :: "Node \<Rightarrow> Field container \<Rightarrow> (string \<rightharpoonup> string) \<Rightarrow> Field container exec" where
  "load_fields nd l domains = for_each (load_field domains) (field_nodes nd) l"

subsection \<open>load\<close>

text \<open>The body of the loop over the \<open>constant\<close> nodes.\<close>

definition load_constant :: "Node \<Rightarrow> store \<Rightarrow> store exec" where
  "load_constant nd st =
     (case attribute nd ''name'' of
        Inl e \<Rightarrow> raises e
      | Inr name \<Rightarrow>
          (case int_attribute nd ''value'' of
             Inl e \<Rightarrow> raises e
           | Inr v \<Rightarrow>
               (case get nd (StrKey ''@class'') None of
                  Inl e \<Rightarrow> raises e
                | Inr klass \<Rightarrow>
                    (case add_or_raise constant_name constant_id (spec_constants (spec st))
                            \<lparr>constant_name = pythonize name, constant_id = v,
                             constant_klass = (case klass of Some (Text v) \<Rightarrow> Some v | _ \<Rightarrow> None),
                             constant_docs = get_docs nd\<rparr> of
                       Inl e \<Rightarrow> raises e
                     | Inr cs \<Rightarrow> returns (st\<lparr>spec := (spec st)\<lparr>spec_constants := cs\<rparr>\<rparr>)))))"

text \<open>
  The loop that fills \<open>domains\<close>. An assignment evaluates its right side first, so
  \<open>@type\<close> is read before \<open>@name\<close>.
\<close>

fun load_domains :: "Node list \<Rightarrow> (string \<rightharpoonup> string) \<Rightarrow> error + (string \<rightharpoonup> string)" where
  "load_domains [] domains = Inr domains"
| "load_domains (nd # nds) domains =
     (case attribute nd ''type'' of
        Inl e \<Rightarrow> Inl e
      | Inr ty \<Rightarrow>
          (case attribute nd ''name'' of
             Inl e \<Rightarrow> Inl e
           | Inr name \<Rightarrow> load_domains nds (domains(name \<mapsto> ty))))"

text \<open>
  The body of the loop over the \<open>method\<close> nodes of a class. The loop state is the
  store and the list \<open>added_methods\<close>; \<open>k\<close> is the address of \<open>klass\<close> and
  \<open>primary\<close> the value of \<open>root == spec_root\<close>.
\<close>

definition response_names :: "Node \<Rightarrow> error + string list" where
  "response_names m_nd =
     comprehension (\<lambda>nd. case attribute nd ''name'' of Inl e \<Rightarrow> Inl e | Inr n \<Rightarrow> Inr (pythonize n))
       (children_named m_nd ''response'')"

definition new_method :: "addr \<Rightarrow> string \<Rightarrow> Node \<Rightarrow> error + Method" where
  "new_method k mname m_nd =
     (case int_attribute m_nd ''index'' of
        Inl e \<Rightarrow> Inl e
      | Inr idx \<Rightarrow>
          (case get_bool m_nd (StrKey ''@content'') False of
             Inl e \<Rightarrow> Inl e
           | Inr content \<Rightarrow>
               (case response_names m_nd of
                  Inl e \<Rightarrow> Inl e
                | Inr responses \<Rightarrow>
                    (case get_bool m_nd (StrKey ''@synchronous'') False of
                       Inl e \<Rightarrow> Inl e
                     | Inr synchronous \<Rightarrow>
                         Inr \<lparr>method_klass = k, method_name = mname, method_id = idx,
                              method_content = content, method_responses = map Name responses,
                              method_synchronous = synchronous, method_fields = SpecContainer,
                              method_description = node_text m_nd, method_docs = get_docs m_nd,
                              method_response = False\<rparr>))))"

definition get_method :: "bool \<Rightarrow> addr \<Rightarrow> Node \<Rightarrow> store \<times> addr list \<Rightarrow> error + (store \<times> addr list) \<times> addr" where
  "get_method primary k m_nd s =
     (case s of (st, added_methods) \<Rightarrow>
        (case attribute m_nd ''name'' of
           Inl e \<Rightarrow> Inl e
         | Inr name \<Rightarrow>
             let mname = pythonize name in
             if primary then
               (case new_method k mname m_nd of
                  Inl e \<Rightarrow> Inl e
                | Inr meth \<Rightarrow>
                    let a = length (method_objs st);
                        st = st\<lparr>method_objs := method_objs st @ [meth]\<rparr>
                    in (case add_or_raise (\<lambda>a. method_name (method_at st a))
                              (\<lambda>a. method_id (method_at st a)) (class_methods (klass_at st k)) a of
                          Inl e \<Rightarrow> Inl e
                        | Inr ms \<Rightarrow>
                            Inr ((set_klass k (\<lambda>c. c\<lparr>class_methods := ms\<rparr>) st,
                                  added_methods @ [a]), a)))
             else
               (case lookup (byname (class_methods (klass_at st k))) mname of
                  Inl e \<Rightarrow> Inl e
                | Inr a \<Rightarrow> Inr ((st, added_methods), a))))"

definition load_method :: "bool \<Rightarrow> (string \<rightharpoonup> string) \<Rightarrow> addr \<Rightarrow> Node \<Rightarrow> store \<times> addr list
    \<Rightarrow> (store \<times> addr list) exec" where
  "load_method primary domains k m_nd s =
     (case get_method primary k m_nd s of
        Inl e \<Rightarrow> raises e
      | Inr ((st, added_methods), a) \<Rightarrow>
          and_then (load_fields m_nd (method_fields (method_at st a)) domains)
            (\<lambda>l. returns (set_method a (\<lambda>m. m\<lparr>method_fields := l\<rparr>) st, added_methods)))"

text \<open>
  The body of the loop that resolves the responses of the methods added. A response
  that is no name but a Method object is no key of \<open>byname\<close>.
\<close>

definition resolve_response :: "store \<Rightarrow> addr \<Rightarrow> response \<Rightarrow> error + addr" where
  "resolve_response st k r =
     (case r of
        Name n \<Rightarrow> lookup (byname (class_methods (klass_at st k))) n
      | Ref b \<Rightarrow> Inl (KeyError (method_name (method_at st b))))"

definition mark_response :: "addr \<Rightarrow> store \<Rightarrow> store" where
  "mark_response resp st = set_method resp (\<lambda>m. m\<lparr>method_response := True\<rparr>) st"

definition resolve_responses :: "addr \<Rightarrow> addr \<Rightarrow> store \<Rightarrow> store exec" where
  "resolve_responses k m st =
     (case comprehension (resolve_response st k) (method_responses (method_at st m)) of
        Inl e \<Rightarrow> raises e
      | Inr refs \<Rightarrow>
          returns (fold mark_response refs
                     (set_method m (\<lambda>m. m\<lparr>method_responses := map Ref refs\<rparr>) st)))"

text \<open>The body of the loop over the \<open>class\<close> nodes of a document.\<close>

definition get_class :: "bool \<Rightarrow> Node \<Rightarrow> store \<Rightarrow> error + store \<times> addr" where
  "get_class primary c_nd st =
     (case attribute c_nd ''name'' of
        Inl e \<Rightarrow> Inl e
      | Inr name \<Rightarrow>
          let cname = pythonize name in
          if primary then
            (case int_attribute c_nd ''index'' of
               Inl e \<Rightarrow> Inl e
             | Inr idx \<Rightarrow>
                 (case attribute c_nd ''handler'' of
                    Inl e \<Rightarrow> Inl e
                  | Inr handler \<Rightarrow>
                      let klass = \<lparr>class_name = cname, class_id = idx, class_handler = handler,
                                   class_fields = SpecContainer, class_methods = SpecContainer,
                                   class_docs = get_docs c_nd\<rparr>;
                          k = length (class_objs st);
                          st = st\<lparr>class_objs := class_objs st @ [klass]\<rparr>
                      in (case add_or_raise (\<lambda>k. class_name (klass_at st k))
                                (\<lambda>k. class_id (klass_at st k)) (spec_classes (spec st)) k of
                            Inl e \<Rightarrow> Inl e
                          | Inr cs \<Rightarrow> Inr (st\<lparr>spec := (spec st)\<lparr>spec_classes := cs\<rparr>\<rparr>, k))))
          else
            (case lookup (byname (spec_classes (spec st))) cname of
               Inl e \<Rightarrow> Inl e
             | Inr k \<Rightarrow> Inr (st, k)))"

definition load_class :: "bool \<Rightarrow> (string \<rightharpoonup> string) \<Rightarrow> Node \<Rightarrow> store \<Rightarrow> store exec" where
  "load_class primary domains c_nd st =
     (case get_class primary c_nd st of
        Inl e \<Rightarrow> raises e
      | Inr (st, k) \<Rightarrow>
          and_then (load_fields c_nd (class_fields (klass_at st k)) domains)
            (\<lambda>l. and_then
               (for_each (load_method primary domains k) (children_named c_nd ''method'')
                  (set_klass k (\<lambda>c. c\<lparr>class_fields := l\<rparr>) st, []))
               (\<lambda>(st, added_methods). for_each (resolve_responses k) added_methods st)))"

text \<open>The body of the loop over the documents.\<close>

definition load_root :: "bool \<times> Node \<Rightarrow> store \<Rightarrow> store exec" where
  "load_root proot st =
     (case proot of (primary, root) \<Rightarrow>
        and_then (for_each load_constant (children_named root ''constant'') st)
          (\<lambda>st. case load_domains (children_named root ''domain'') Map.empty of
                   Inl e \<Rightarrow> raises e
                 | Inr domains \<Rightarrow>
                     for_each (load_class primary domains) (children_named root ''class'') st))"

text \<open>\<open>doc["amqp"][0]\<close>.\<close>

definition amqp_root :: "Node \<Rightarrow> error + Node" where
  "amqp_root doc = (case children_named doc ''amqp'' of [] \<Rightarrow> Inl IndexError | r # rs \<Rightarrow> Inr r)"

text \<open>The empty model that \<open>Spec(major, minor, file)\<close> creates.\<close>

definition initial_store :: "int \<Rightarrow> int \<Rightarrow> string \<Rightarrow> store" where
  "initial_store major minor specfile =
     \<lparr>spec = \<lparr>spec_major = major, spec_minor = minor, spec_file = specfile,
              spec_constants = SpecContainer, spec_classes = SpecContainer\<rparr>,
      class_objs = [], method_objs = []\<rparr>"

text \<open>
  \<open>load\<close>, on the documents as \<open>xmlutil.parse\<close> returns them. \<open>post_load\<close>
  generates Python code for the loaded model and runs it; it is a parameter here: a
  function that may raise and leaves the model as it is.
\<close>

definition load :: "(store \<Rightarrow> error option) \<Rightarrow> string \<Rightarrow> Node \<Rightarrow> Node list \<Rightarrow> store exec" where
  "load post_load specfile doc errata =
     (case amqp_root doc of
        Inl e \<Rightarrow> raises e
      | Inr spec_root \<Rightarrow>
          (case int_attribute spec_root ''major'' of
             Inl e \<Rightarrow> raises e
           | Inr major \<Rightarrow>
               (case int_attribute spec_root ''minor'' of
                  Inl e \<Rightarrow> raises e
                | Inr minor \<Rightarrow>
                    (case comprehension amqp_root errata of
                       Inl e \<Rightarrow> raises e
                     | Inr roots \<Rightarrow>
                         and_then
                           (for_each load_root ((True, spec_root) # map (Pair False) roots)
                              (initial_store major minor specfile))
                           (\<lambda>st. case post_load st of Some e \<Rightarrow> raises e | None \<Rightarrow> returns st)))))"


subsection \<open>Example documents\<close>

text \<open>
  A primary document with one class, \<open>basic\<close>, and two methods: \<open>publish\<close>, with
  a \<open>doc\<close> child, two fields and a response declared before the method it names, and
  \<open>publish-ok\<close>. The type of \<open>exchange\<close> is an alias.
\<close>

definition tag :: "string \<Rightarrow> (string \<times> string) list \<Rightarrow> Node list \<Rightarrow> Node" where
  "tag name attrs children = Node name (Some (map_of attrs)) None children"

definition primary_publish :: Node where
  "primary_publish =
     tag ''method'' [(''name'', ''publish''), (''index'', ''40''), (''content'', ''1'')]
       [tag ''doc'' [] [],
        tag ''field'' [(''name'', ''reserved''), (''type'', ''short'')] [],
        tag ''field'' [(''name'', ''exchange''), (''domain'', ''path'')] [],
        tag ''response'' [(''name'', ''publish-ok'')] []]"

definition primary_class :: Node where
  "primary_class =
     tag ''class'' [(''name'', ''basic''), (''index'', ''60''), (''handler'', ''channel'')]
       [primary_publish, tag ''method'' [(''name'', ''publish-ok''), (''index'', ''41'')] []]"

definition primary_root :: Node where
  "primary_root =
     tag ''amqp'' [(''major'', ''0''), (''minor'', ''8'')]
       [tag ''domain'' [(''name'', ''path''), (''type'', ''shortstr'')] [], primary_class]"

definition primary_doc :: Node where
  "primary_doc = Node ''root'' None None [primary_root]"

text \<open>An overlay that declares one more field, \<open>routing-key\<close>, for \<open>publish\<close>.\<close>

definition errata_field_method :: Node where
  "errata_field_method =
     tag ''method'' [(''name'', ''publish'')]
       [tag ''field'' [(''name'', ''routing-key''), (''type'', ''shortstr'')] []]"

definition errata_field_class :: Node where
  "errata_field_class = tag ''class'' [(''name'', ''basic'')] [errata_field_method]"

definition errata_field_root :: Node where
  "errata_field_root = tag ''amqp'' [] [errata_field_class]"

definition errata_field_doc :: Node where
  "errata_field_doc = Node ''root'' None None [errata_field_root]"

text \<open>An overlay that declares a constant and the field \<open>routing-key\<close> of \<open>publish\<close>.\<close>

definition errata_constant_root :: Node where
  "errata_constant_root =
     tag ''amqp'' []
       [tag ''constant'' [(''name'', ''frame-foo''), (''value'', ''99'')] [], errata_field_class]"

text \<open>An overlay that declares a method \<open>get\<close>, which the primary document lacks.\<close>

definition errata_method_method :: Node where
  "errata_method_method = tag ''method'' [(''name'', ''get''), (''index'', ''70'')] []"

definition errata_method_root :: Node where
  "errata_method_root = tag ''amqp'' [] [tag ''class'' [(''name'', ''basic'')] [errata_method_method]]"

definition errata_method_doc :: Node where
  "errata_method_doc = Node ''root'' None None [errata_method_root]"

text \<open>An overlay that names a class the primary document lacks.\<close>

definition errata_class_class :: Node where
  "errata_class_class =
     tag ''class'' [(''name'', ''queue''), (''index'', ''50''), (''handler'', ''channel'')] []"

definition errata_class_root :: Node where
  "errata_class_root = tag ''amqp'' [] [errata_class_class]"

definition errata_class_doc :: Node where
  "errata_class_doc = Node ''root'' None None [errata_class_root]"

definition no_post_load :: "store \<Rightarrow> error option" where
  "no_post_load st = None"

text \<open>A class whose only method names a response that no method of the class has.\<close>

definition orphan_class :: Node where
  "orphan_class =
     tag ''class'' [(''name'', ''basic''), (''index'', ''60''), (''handler'', ''channel'')]
       [tag ''method'' [(''name'', ''publish''), (''index'', ''40'')]
          [tag ''response'' [(''name'', ''missing'')] []]]"

text \<open>A run that returned normally.\<close>

definition returned :: "'a exec \<Rightarrow> bool" where
  "returned r = (case r of Some (Inr x) \<Rightarrow> True | _ \<Rightarrow> False)"

subsection \<open>What an overlay may change\<close>

text \<open>
  \<open>fields_added c c'\<close>: the container \<open>c'\<close> holds the items of \<open>c\<close>, in their
  order, and then possibly more. \<open>only_fields_added st st'\<close>: the store \<open>st'\<close> has
  the \<open>Spec\<close>, the Class objects and the Method objects of \<open>st\<close>, and each object
  is as it is in \<open>st\<close> but for fields added to its field container.
\<close>

definition fields_added :: "Field container \<Rightarrow> Field container \<Rightarrow> bool" where
  "fields_added c c' \<longleftrightarrow> (\<exists>new. items c' = items c @ new)"

definition only_fields_added :: "store \<Rightarrow> store \<Rightarrow> bool" where
  "only_fields_added st st' \<longleftrightarrow>
     spec st' = spec st \<and>
     length (class_objs st') = length (class_objs st) \<and>
     length (method_objs st') = length (method_objs st) \<and>
     (\<forall>k < length (class_objs st).
        klass_at st' k = (klass_at st k)\<lparr>class_fields := class_fields (klass_at st' k)\<rparr> \<and>
        fields_added (class_fields (klass_at st k)) (class_fields (klass_at st' k))) \<and>
     (\<forall>a < length (method_objs st).
        method_at st' a = (method_at st a)\<lparr>method_fields := method_fields (method_at st' a)\<rparr> \<and>
        fields_added (method_fields (method_at st a)) (method_fields (method_at st' a)))"

text \<open>
  \<open>only_fields_and_constants_added st st'\<close>: the same, but that the constant registry
  of \<open>st'\<close> may hold more constants, after those of \<open>st\<close>.
\<close>

definition only_fields_and_constants_added :: "store \<Rightarrow> store \<Rightarrow> bool" where
  "only_fields_and_constants_added st st' \<longleftrightarrow>
     (\<exists>new. items (spec_constants (spec st')) = items (spec_constants (spec st)) @ new) \<and>
     only_fields_added (st\<lparr>spec := (spec st)\<lparr>spec_constants := spec_constants (spec st')\<rparr>\<rparr>) st'"

subsection \<open>The state between the two phases of a class\<close>

text \<open>
  \<open>registered a0 k nodes st added\<close>: in the store \<open>st\<close> the methods of the nodes
  \<open>nodes\<close> have been created, at the addresses from \<open>a0\<close> on, and added to the
  method registry of the class at \<open>k\<close>, each still with the response names of its
  node; \<open>added\<close> is the list of their addresses.
\<close>

definition registered :: "addr \<Rightarrow> addr \<Rightarrow> Node list \<Rightarrow> store \<Rightarrow> addr list \<Rightarrow> bool" where
  "registered a0 k nodes st added \<longleftrightarrow>
     k < length (class_objs st) \<and>
     length (method_objs st) = a0 + length nodes \<and>
     added = [a0 ..< a0 + length nodes] \<and>
     items (class_methods (klass_at st k)) = added \<and>
     (\<forall>i < length nodes. \<exists>nm names.
        attribute (nodes ! i) ''name'' = Inr nm \<and>
        method_name (method_at st (a0 + i)) = pythonize nm \<and>
        response_names (nodes ! i) = Inr names \<and>
        method_responses (method_at st (a0 + i)) = map Name names) \<and>
     (\<forall>n b. byname (class_methods (klass_at st k)) n = Some b \<longrightarrow>
        a0 \<le> b \<and> b < a0 + length nodes \<and> method_name (method_at st b) = n)"

section \<open>Properties of SpecContainer\<close>

lemma registry_inv_empty: "registry_inv nm idf SpecContainer"
  by (simp add: registry_inv_def SpecContainer_def)

lemma add_fail_name:
  "has_key (byname c) (nm x) \<Longrightarrow> add nm idf c x = (Some (DuplicateName (nm x)), c)"
  by (simp add: add_def)

lemma add_fail_id:
  "\<not> has_key (byname c) (nm x) \<Longrightarrow> has_key (byid c) (idf x) \<Longrightarrow>
   add nm idf c x = (Some (DuplicateId (idf x)), c)"
  by (simp add: add_def)

lemma add_ok:
  "\<not> has_key (byname c) (nm x) \<Longrightarrow> \<not> has_key (byid c) (idf x) \<Longrightarrow>
   add nm idf c x =
     (None, \<lparr>items = items c @ [x], byname = (byname c)(nm x \<mapsto> x),
             byid = (byid c)(idf x \<mapsto> x), indexes = (indexes c)(x \<mapsto> length (items c))\<rparr>)"
  by (simp add: add_def Let_def)

lemma inv_has_name:
  "registry_inv nm idf c \<Longrightarrow> has_key (byname c) n \<longleftrightarrow> n \<in> nm ` set (items c)"
  by (auto simp: registry_inv_def has_key_def)

lemma inv_has_id:
  "registry_inv nm idf c \<Longrightarrow> has_key (byid c) i \<longleftrightarrow> i \<in> idf ` set (items c)"
  by (auto simp: registry_inv_def has_key_def)

lemma inv_index:
  "registry_inv nm idf c \<Longrightarrow> i < length (items c) \<Longrightarrow> index c (items c ! i) = Inr i"
  by (simp add: registry_inv_def index_def)

lemma add_inv:
  assumes inv: "registry_inv nm idf c"
  shows "registry_inv nm idf (snd (add nm idf c x))"
proof (cases "has_key (byname c) (nm x) \<or> has_key (byid c) (idf x)")
  case True
  then show ?thesis using inv by (auto simp: add_def)
next
  case False
  then have n: "nm x \<notin> nm ` set (items c)" and i: "idf x \<notin> idf ` set (items c)"
    using inv by (simp_all add: inv_has_name inv_has_id)
  then have xn: "x \<notin> set (items c)" by auto
  from False have eq: "snd (add nm idf c x) =
      \<lparr>items = items c @ [x], byname = (byname c)(nm x \<mapsto> x),
       byid = (byid c)(idf x \<mapsto> x), indexes = (indexes c)(x \<mapsto> length (items c))\<rparr>"
    by (simp add: add_ok)
  show ?thesis unfolding eq using inv n i xn
    by (simp add: registry_inv_def) (auto simp: nth_append)
qed

lemma adds_inv: "registry_inv nm idf c \<Longrightarrow> registry_inv nm idf (adds nm idf c xs)"
  by (induction xs arbitrary: c) (auto intro: add_inv)

lemma reachable_inv: "registry_inv nm idf (adds nm idf SpecContainer xs)"
  by (rule adds_inv) (rule registry_inv_empty)

text \<open>
  C3. In every container reached from the empty one by a sequence of \<open>add\<close> calls, the
  names and the ids of the items are unique. A further \<open>add\<close> raises one of the two
  duplicate errors if the name or the id of the new item is that of an item already
  there. Otherwise it returns normally and puts the item at the end of \<open>items\<close>;
  \<open>index\<close> then returns that position for it, and the position of every earlier
  item is what it was.
\<close>

theorem add_unique_and_ordered:
  "let c = adds nm idf SpecContainer xs; r = add nm idf c item in
     distinct (map nm (items c)) \<and> distinct (map idf (items c)) \<and>
     (nm item \<in> nm ` set (items c) \<or> idf item \<in> idf ` set (items c) \<longrightarrow>
        (\<exists>e. fst r = Some e \<and> DuplicateIdentity e)) \<and>
     (nm item \<notin> nm ` set (items c) \<and> idf item \<notin> idf ` set (items c) \<longrightarrow>
        fst r = None \<and> items (snd r) = items c @ [item] \<and>
        index (snd r) item = Inr (length (items c)) \<and>
        (\<forall>i < length (items c). index (snd r) (items c ! i) = Inr i))"
proof -
  define c where "c = adds nm idf SpecContainer xs"
  define r where "r = add nm idf c item"
  have inv: "registry_inv nm idf c"
    unfolding c_def by (rule reachable_inv)
  have d: "distinct (map nm (items c)) \<and> distinct (map idf (items c))"
    using inv by (simp add: registry_inv_def)
  have dup: "\<exists>e. fst r = Some e \<and> DuplicateIdentity e"
    if "nm item \<in> nm ` set (items c) \<or> idf item \<in> idf ` set (items c)"
  proof (cases "has_key (byname c) (nm item)")
    case True
    then show ?thesis by (simp add: r_def add_fail_name)
  next
    case False
    with that inv have "has_key (byid c) (idf item)"
      by (simp add: inv_has_name inv_has_id)
    with False show ?thesis by (simp add: r_def add_fail_id)
  qed
  have ok: "fst r = None \<and> items (snd r) = items c @ [item] \<and>
        index (snd r) item = Inr (length (items c)) \<and>
        (\<forall>i < length (items c). index (snd r) (items c ! i) = Inr i)"
    if fresh: "nm item \<notin> nm ` set (items c) \<and> idf item \<notin> idf ` set (items c)"
  proof -
    from fresh inv have nk: "\<not> has_key (byname c) (nm item)" "\<not> has_key (byid c) (idf item)"
      by (simp_all add: inv_has_name inv_has_id)
    have r: "r = (None, \<lparr>items = items c @ [item], byname = (byname c)(nm item \<mapsto> item),
             byid = (byid c)(idf item \<mapsto> item),
             indexes = (indexes c)(item \<mapsto> length (items c))\<rparr>)"
      unfolding r_def using nk by (rule add_ok [where c = c and nm = nm and idf = idf and x = item])
    from fresh have notin: "item \<notin> set (items c)" by auto
    have "index (snd r) (items c ! i) = Inr i" if "i < length (items c)" for i
    proof -
      from that notin have "items c ! i \<noteq> item" by (metis nth_mem)
      with that inv show ?thesis by (simp add: r index_def registry_inv_def)
    qed
    then show ?thesis by (simp add: r index_def)
  qed
  from d dup ok show ?thesis
    unfolding Let_def c_def [symmetric] r_def [symmetric] by blast
qed

theorem add_unique_and_ordered_witness:
  "(let c = adds fst snd SpecContainer [(''a'', 1), (''b'', 2), (''a'', 3)];
        r = add fst snd c (''c'', 3) in
      items c = [(''a'', 1), (''b'', 2)] \<and>
      fst r = None \<and> items (snd r) = [(''a'', 1), (''b'', 2), (''c'', 3)] \<and>
      index (snd r) (''c'', 3) = Inr 2) \<and>
   (let c = adds fst snd SpecContainer [(''a'', 1), (''b'', 2)];
        r = add fst snd c (''c'', 2) in
      \<exists>e. fst r = Some e \<and> DuplicateIdentity e)"
proof -
  have c1: "items (adds fst snd SpecContainer [(''a'', 1), (''b'', 2), (''a'', 3)])
      = [(''a'', 1::int), (''b'', 2)]"
    by (simp add: add_def SpecContainer_def has_key_def)
  have c2: "items (adds fst snd SpecContainer [(''a'', 1), (''b'', 2)])
      = [(''a'', 1::int), (''b'', 2)]"
    by (simp add: add_def SpecContainer_def has_key_def)
  from add_unique_and_ordered [of fst snd "[(''a'', 1), (''b'', 2), (''a'', 3)]" "(''c'', 3)"]
    add_unique_and_ordered [of fst snd "[(''a'', 1), (''b'', 2)]" "(''c'', 2)"]
  show ?thesis
    unfolding Let_def c1 c2 by (simp add: numeral_2_eq_2)
qed

text \<open>
  C10. An \<open>add\<close> that fails leaves the container as it was: both checks come before
  the first assignment. So \<open>items\<close>, \<open>byname\<close>, \<open>byid\<close> and \<open>indexes\<close> are
  unchanged, and an item with a new name and a duplicate id is not entered under its
  name.
\<close>

theorem add_failure_atomic:
  assumes "has_key (byname c) (nm item) \<or> has_key (byid c) (idf item)"
  shows "fst (add nm idf c item) \<noteq> None \<and> snd (add nm idf c item) = c \<and>
         items (snd (add nm idf c item)) = items c \<and>
         byname (snd (add nm idf c item)) = byname c \<and>
         byid (snd (add nm idf c item)) = byid c \<and>
         indexes (snd (add nm idf c item)) = indexes c \<and>
         (\<not> has_key (byname c) (nm item) \<longrightarrow>
            byname (snd (add nm idf c item)) (nm item) = None)"
  using assms by (auto simp: add_def has_key_def)

theorem add_failure_atomic_witness:
  "(let c = snd (add fst snd SpecContainer (''a'', 1)) in
      has_key (byid c) (snd (''b'', 1)) \<and> \<not> has_key (byname c) (fst (''b'', 1)) \<and>
      fst (add fst snd c (''b'', 1)) = Some (DuplicateId 1) \<and>
      snd (add fst snd c (''b'', 1)) = c \<and>
      byname (snd (add fst snd c (''b'', 1))) ''b'' = None)"
proof -
  define c where "c = snd (add fst snd SpecContainer (''a'', 1::int))"
  have h: "has_key (byid c) (snd (''b'', 1::int))" "\<not> has_key (byname c) (fst (''b'', 1::int))"
    by (simp_all add: c_def add_def SpecContainer_def has_key_def)
  have e: "fst (add fst snd c (''b'', 1)) = Some (DuplicateId 1)"
    using h by (simp add: add_def)
  from h have "has_key (byname c) (fst (''b'', 1::int)) \<or> has_key (byid c) (snd (''b'', 1::int))"
    by simp
  note t = add_failure_atomic [where c = c and nm = fst and idf = snd and item = "(''b'', 1)", OF this]
  from t have t1: "snd (add fst snd c (''b'', 1)) = c" by (rule conjunct1 [OF conjunct2])
  from t h(2) have t2: "byname (snd (add fst snd c (''b'', 1))) ''b'' = None" by auto
  from h e t1 t2 show ?thesis
    unfolding Let_def c_def [symmetric] by auto
qed

section \<open>Properties of Method.arguments\<close>

lemma map_of_pop: "n' \<noteq> n \<Longrightarrow> map_of (pop kw n) n' = map_of kw n'"
  by (induction kw) (auto simp: pop_def)

lemma val_of_pop: "field_name f \<noteq> n \<Longrightarrow> val_of args (pop kw n) i f = val_of args kw i f"
  by (simp add: val_of_def map_of_pop)

lemma vals_pop: "n \<notin> field_name ` set fs \<Longrightarrow> vals args (pop kw n) k fs = vals args kw k fs"
  by (induction fs arbitrary: k) (auto simp: val_of_pop)

lemma length_vals: "length (vals args kw k fs) = length fs"
  by (induction fs arbitrary: k) auto

lemma nth_vals: "j < length fs \<Longrightarrow> vals args kw k fs ! j = the (val_of args kw (k + j) (fs ! j))"
proof (induction fs arbitrary: k j)
  case Nil
  then show ?case by simp
next
  case (Cons f fs)
  then show ?case by (cases j) auto
qed

lemma fill_error: "fill c args fs kw res = Inl e \<Longrightarrow> e = NotIndexed \<or> (\<exists>t. e = KeyError t)"
proof (induction fs arbitrary: kw res)
  case Nil
  then show ?case by simp
next
  case (Cons f fs)
  then show ?case
    by (auto simp: index_def split: option.splits if_splits sum.splits)
qed

lemma pop_unconsumed:
  "\<not> k < length args \<Longrightarrow>
   unconsumed args (Suc k) fs (pop kw (field_name f)) = unconsumed args k (f # fs) kw"
  by (auto simp: unconsumed_def pop_def intro: filter_cong)

lemma unconsumed_pos:
  "k < length args \<Longrightarrow> unconsumed args k (f # fs) kw = unconsumed args (Suc k) fs kw"
proof -
  assume "k < length args"
  then have "length args - k = Suc (length args - Suc k)" by simp
  then show ?thesis by (simp add: unconsumed_def)
qed

lemma unconsumed_absent:
  "\<not> k < length args \<Longrightarrow> map_of kw (field_name f) = None \<Longrightarrow>
   unconsumed args k (f # fs) kw = unconsumed args (Suc k) fs kw"
proof -
  assume a: "\<not> k < length args" "map_of kw (field_name f) = None"
  then have "\<forall>(key, v) \<in> set kw. key \<noteq> field_name f"
    by (auto simp: map_of_eq_None_iff image_iff)
  then show ?thesis using a unfolding unconsumed_def
    by (intro filter_cong) auto
qed

lemma fill_ok:
  assumes "\<forall>j < length fs. index c (fs ! j) = Inr (k + j)"
    and "distinct (map field_name fs)"
    and "\<forall>j < length fs. val_of args kw (k + j) (fs ! j) \<noteq> None"
  shows "fill c args fs kw res = Inr (res @ vals args kw k fs, unconsumed args k fs kw)"
  using assms
proof (induction fs arbitrary: k kw res)
  case Nil
  then show ?case by (simp add: unconsumed_def)
next
  case (Cons f fs)
  from Cons.prems(1) have idx: "index c f = Inr k" by force
  from Cons.prems(1) have idxs: "\<forall>j < length fs. index c (fs ! j) = Inr (Suc k + j)" by force
  from Cons.prems(2) have dist: "distinct (map field_name fs)" and nf: "field_name f \<notin> field_name ` set fs"
    by auto
  from Cons.prems(3) have v0: "val_of args kw k f \<noteq> None" by force
  from Cons.prems(3) have vs: "\<forall>j < length fs. val_of args kw (Suc k + j) (fs ! j) \<noteq> None" by force
  show ?case
  proof (cases "k < length args")
    case True
    show ?thesis
      using True idx Cons.IH [OF idxs dist vs, of "res @ [args ! k]"]
      by (simp add: unconsumed_pos val_of_def)
  next
    case False
    show ?thesis
    proof (cases "map_of kw (field_name f)")
      case None
      with v0 False obtain d where d: "DEFAULTS (field_type f) = Some d"
        by (auto simp: val_of_def)
      show ?thesis
        using False idx None d Cons.IH [OF idxs dist vs, of "res @ [d]"]
        by (simp add: unconsumed_absent val_of_def)
    next
      case (Some v)
      have nf': "\<forall>j < length fs. field_name (fs ! j) \<noteq> field_name f"
        using nf by (metis image_eqI nth_mem)
      have vs': "\<forall>j < length fs. val_of args (pop kw (field_name f)) (Suc k + j) (fs ! j) \<noteq> None"
        using vs nf' by (simp add: val_of_pop)
      show ?thesis
        using False idx Some Cons.IH [OF idxs dist vs', of "res @ [v]"] nf
        by (simp add: pop_unconsumed vals_pop val_of_def)
    qed
  qed
qed

lemma fill_Inr_vals:
  assumes "\<forall>j < length fs. index c (fs ! j) = Inr (k + j)"
    and "distinct (map field_name fs)"
    and "fill c args fs kw res = Inr r"
  shows "\<forall>j < length fs. val_of args kw (k + j) (fs ! j) \<noteq> None"
  using assms
proof (induction fs arbitrary: k kw res)
  case Nil
  then show ?case by simp
next
  case (Cons f fs)
  from Cons.prems(1) have idx: "index c f = Inr k" by force
  from Cons.prems(1) have idxs: "\<forall>j < length fs. index c (fs ! j) = Inr (Suc k + j)" by force
  from Cons.prems(2) have dist: "distinct (map field_name fs)" and nf: "field_name f \<notin> field_name ` set fs"
    by auto
  have "val_of args kw k f \<noteq> None \<and> (\<forall>j < length fs. val_of args kw (Suc k + j) (fs ! j) \<noteq> None)"
  proof (cases "k < length args")
    case True
    with Cons.prems(3) idx have "fill c args fs kw (res @ [args ! k]) = Inr r" by simp
    from Cons.IH [OF idxs dist this] True show ?thesis by (simp add: val_of_def)
  next
    case False
    show ?thesis
    proof (cases "map_of kw (field_name f)")
      case None
      with Cons.prems(3) idx False obtain d where d: "DEFAULTS (field_type f) = Some d"
        and r: "fill c args fs kw (res @ [d]) = Inr r"
        by (auto split: option.splits)
      from Cons.IH [OF idxs dist r] d None False show ?thesis by (simp add: val_of_def)
    next
      case (Some v)
      with Cons.prems(3) idx False have fl: "fill c args fs (pop kw (field_name f)) (res @ [v]) = Inr r"
        by simp
      have nf': "\<forall>j < length fs. field_name (fs ! j) \<noteq> field_name f"
        using nf by (metis image_eqI nth_mem)
      from Cons.IH [OF idxs dist fl] nf' have
        "\<forall>j < length fs. val_of args kw (Suc k + j) (fs ! j) \<noteq> None"
        by (simp add: val_of_pop)
      with Some False show ?thesis
        by (simp add: val_of_def)
    qed
  qed
  then show ?case by (auto simp: less_Suc_eq_0_disj)
qed

lemma reach_fields:
  assumes "method_fields m = adds field_name field_id SpecContainer xs"
  shows "registry_inv field_name field_id (method_fields m)"
  using assms by (simp add: reachable_inv)

lemma inv_fill_prems:
  assumes "registry_inv field_name field_id c"
  shows "\<forall>j < length (items c). index c (items c ! j) = Inr (0 + j)"
    and "distinct (map field_name (items c))"
  using assms by (simp_all add: registry_inv_def index_def)

lemma fill_items:
  assumes inv: "registry_inv field_name field_id c"
    and r: "fill c args (items c) kw [] = Inr (res, rest)"
  shows "res = vals args kw 0 (items c)" and "rest = unconsumed args 0 (items c) kw"
    and "\<forall>j < length (items c). val_of args kw j (items c ! j) \<noteq> None"
proof -
  note p = inv_fill_prems [OF inv]
  from fill_Inr_vals [OF p r] show v: "\<forall>j < length (items c). val_of args kw j (items c ! j) \<noteq> None"
    by simp
  then have "\<forall>j < length (items c). val_of args kw (0 + j) (items c ! j) \<noteq> None" by simp
  from fill_ok [OF p this, of "[]"] r
  show "res = vals args kw 0 (items c)" and "rest = unconsumed args 0 (items c) kw"
    by simp_all
qed

lemma vals_positional:
  "k + length fs \<le> length args \<Longrightarrow> vals args kw k fs = take (length fs) (drop k args)"
proof (induction fs arbitrary: k)
  case Nil
  then show ?case by simp
next
  case (Cons f fs)
  then have "k < length args" by simp
  then have "drop k args = args ! k # drop (Suc k) args"
    by (simp add: Cons_nth_drop_Suc)
  with Cons show ?case by (simp add: val_of_def)
qed

lemma unconsumed_all_positional:
  "length fs \<le> length args \<Longrightarrow> unconsumed args 0 fs kw = kw"
  by (simp add: unconsumed_def)

lemma defaults_table:
  "DEFAULTS ''bit'' = Some (PyBool False)"
  "DEFAULTS ''shortstr'' = Some (PyStr '''')"
  "DEFAULTS ''longstr'' = Some (PyStr '''')"
  "DEFAULTS ''table'' = Some (PyDict [])"
  "DEFAULTS ''octet'' = Some (PyInt 0)"
  "DEFAULTS ''short'' = Some (PyInt 0)"
  "DEFAULTS ''long'' = Some (PyInt 0)"
  "DEFAULTS ''longlong'' = Some (PyInt 0)"
  "DEFAULTS ''timestamp'' = Some (PyInt 0)"
  "DEFAULTS ''content'' = Some PyNone"
  by (simp_all add: DEFAULTS_def)

lemma arguments_positional:
  assumes inv: "registry_inv field_name field_id (method_fields m)"
    and len: "length vs = length (items (method_fields m))"
  shows "arguments m vs [] = Inr vs"
proof -
  let ?c = "method_fields m"
  note p = inv_fill_prems [OF inv]
  have "\<forall>j < length (items ?c). val_of vs [] (0 + j) (items ?c ! j) \<noteq> None"
    using len by (simp add: val_of_def)
  from fill_ok [OF p this, of "[]"]
  have "fill ?c vs (items ?c) [] [] = Inr (vs, [])"
    using len by (simp add: vals_positional unconsumed_all_positional)
  then show ?thesis using len by (simp add: arguments_def)
qed

lemma arguments_named:
  assumes inv: "registry_inv field_name field_id (method_fields m)"
    and len: "length vs = length (items (method_fields m))"
    and dk: "distinct (map fst kw)"
    and kw: "map_of kw = map_of (zip (map field_name (items (method_fields m))) vs)"
  shows "arguments m [] kw = Inr vs"
proof -
  let ?c = "method_fields m"
  let ?fs = "items ?c"
  note p = inv_fill_prems [OF inv]
  have dn: "distinct (map field_name ?fs)" by (rule p(2))
  have look: "map_of kw (field_name (?fs ! j)) = Some (vs ! j)" if "j < length ?fs" for j
  proof -
    have "map_of (zip (map field_name ?fs) vs) (map field_name ?fs ! j) = Some (vs ! j)"
      using dn len that by (intro map_of_zip_nth) simp_all
    with that show ?thesis by (simp add: kw)
  qed
  have dom: "fst ` set kw = field_name ` set ?fs"
  proof -
    have "dom (map_of kw) = set (map field_name ?fs)"
      unfolding kw using len by (intro dom_map_of_zip) simp
    then show ?thesis by (simp add: dom_map_of_conv_image_fst)
  qed
  have "length kw = card (fst ` set kw)"
    using dk by (metis distinct_card length_map set_map)
  also have "\<dots> = card (set (map field_name ?fs))" by (simp add: dom)
  also have "\<dots> = length ?fs" using dn by (metis distinct_card length_map)
  finally have lk: "length kw = length ?fs" .
  have v: "\<forall>j < length ?fs. val_of [] kw (0 + j) (?fs ! j) \<noteq> None"
    by (simp add: val_of_def look)
  have vals: "vals [] kw 0 ?fs = vs"
    by (rule nth_equalityI) (simp_all add: length_vals len nth_vals val_of_def look)
  have "\<forall>(key, v) \<in> set kw. key \<in> field_name ` set ?fs"
    using dom by (metis (no_types, lifting) case_prodI2 fst_conv image_eqI)
  then have "unconsumed [] 0 ?fs kw = []"
    by (auto simp: unconsumed_def filter_empty_conv)
  with fill_ok [OF p v, of "[]"] vals
  have "fill ?c [] ?fs kw [] = Inr (vs, [])" by simp
  then show ?thesis using lk by (simp add: arguments_def)
qed

lemma arguments_default:
  assumes inv: "registry_inv field_name field_id (method_fields m)"
    and r: "arguments m args kw = Inr tup"
    and i: "i < length (items (method_fields m))" "length args \<le> i"
    and om: "map_of kw (field_name (items (method_fields m) ! i)) = None"
  shows "DEFAULTS (field_type (items (method_fields m) ! i)) = Some (tup ! i)"
    and "length tup = length (items (method_fields m))"
proof -
  let ?c = "method_fields m"
  from r obtain rest where f: "fill ?c args (items ?c) kw [] = Inr (tup, rest)"
    by (auto simp: arguments_def Let_def split: if_splits sum.splits list.splits)
  note fi = fill_items [OF inv f]
  from fi(1) show "length tup = length (items ?c)" by (simp add: length_vals)
  from fi(3) i have "val_of args kw i (items ?c ! i) \<noteq> None" by simp
  moreover from fi(1) i have "tup ! i = the (val_of args kw i (items ?c ! i))"
    by (simp add: nth_vals)
  ultimately show "DEFAULTS (field_type (items ?c ! i)) = Some (tup ! i)"
    using i om by (auto simp: val_of_def)
qed

lemma arguments_too_many_iff:
  "(\<exists>a b. arguments m args kw = Inl (TooManyArguments a b)) \<longleftrightarrow>
     length args + length kw > length (items (method_fields m))"
proof (cases "length args + length kw > length (items (method_fields m))")
  case True
  then show ?thesis by (simp add: arguments_def)
next
  case False
  have "arguments m args kw \<noteq> Inl (TooManyArguments a b)" for a b
  proof (cases "fill (method_fields m) args (items (method_fields m)) kw []")
    case (Inl e)
    from fill_error [OF Inl] Inl False show ?thesis
      by (auto simp: arguments_def)
  next
    case (Inr r)
    with False show ?thesis
      by (auto simp: arguments_def split: prod.splits list.splits)
  qed
  with False show ?thesis by simp
qed

lemma unconsumed_classes:
  assumes "(key, v) \<in> set (unconsumed args 0 fs kw)"
  shows "key \<in> field_name ` set (take (length args) fs) \<or> key \<notin> field_name ` set fs"
proof -
  from assms have "key \<notin> field_name ` set (drop (length args) fs)"
    by (simp add: unconsumed_def)
  moreover have "set fs = set (take (length args) fs) \<union> set (drop (length args) fs)"
    by (metis append_take_drop_id set_append)
  ultimately show ?thesis by auto
qed



lemma publish_items: "items (method_fields publish) = publish_fields"
  by (simp add: publish_def publish_fields_def add_def SpecContainer_def has_key_def)

text \<open>
  C1. For a method whose field container was filled by \<open>add\<close> calls, with
  \<open>fs\<close> its fields in insertion order: called with one positional value per
  field, \<open>arguments\<close> returns these values in order; called with the same values as
  keyword arguments, one under each field name, it returns the same tuple; and where a
  call returns, the entry of a field that has neither a positional value nor a keyword
  argument is the entry of \<open>DEFAULTS\<close> for the field's type. The table maps
  \<open>bit\<close> to \<open>False\<close>, the two string types to the empty string, \<open>table\<close> to
  the empty dictionary, the integer types and \<open>timestamp\<close> to 0 and \<open>content\<close> to
  \<open>None\<close>.
\<close>

theorem arguments_call_shape:
  assumes reach: "method_fields m = adds field_name field_id SpecContainer xs"
    and fs: "fs = items (method_fields m)"
  shows "(length vs = length fs \<longrightarrow> arguments m vs [] = Inr vs) \<and>
     (length vs = length fs \<and> distinct (map fst kw) \<and>
      map_of kw = map_of (zip (map field_name fs) vs) \<longrightarrow> arguments m [] kw = Inr vs) \<and>
     (arguments m args kw' = Inr tup \<and> i < length fs \<and> length args \<le> i \<and>
      map_of kw' (field_name (fs ! i)) = None \<longrightarrow>
        length tup = length fs \<and> DEFAULTS (field_type (fs ! i)) = Some (tup ! i)) \<and>
     DEFAULTS ''bit'' = Some (PyBool False) \<and>
     DEFAULTS ''shortstr'' = Some (PyStr '''') \<and>
     DEFAULTS ''longstr'' = Some (PyStr '''') \<and>
     DEFAULTS ''table'' = Some (PyDict []) \<and>
     DEFAULTS ''octet'' = Some (PyInt 0) \<and>
     DEFAULTS ''short'' = Some (PyInt 0) \<and>
     DEFAULTS ''long'' = Some (PyInt 0) \<and>
     DEFAULTS ''longlong'' = Some (PyInt 0) \<and>
     DEFAULTS ''timestamp'' = Some (PyInt 0) \<and>
     DEFAULTS ''content'' = Some PyNone"
proof -
  note inv = reach_fields [OF reach]
  have pos: "length vs = length fs \<longrightarrow> arguments m vs [] = Inr vs"
    using arguments_positional [OF inv] by (simp add: fs)
  have named: "length vs = length fs \<and> distinct (map fst kw) \<and>
      map_of kw = map_of (zip (map field_name fs) vs) \<longrightarrow> arguments m [] kw = Inr vs"
    using arguments_named [OF inv] by (simp add: fs)
  have dflt: "arguments m args kw' = Inr tup \<and> i < length fs \<and> length args \<le> i \<and>
      map_of kw' (field_name (fs ! i)) = None \<longrightarrow>
        length tup = length fs \<and> DEFAULTS (field_type (fs ! i)) = Some (tup ! i)"
    using arguments_default [OF inv, of args kw' tup i] by (auto simp: fs)
  from pos named dflt show ?thesis
    by (simp only: defaults_table simp_thms)
qed

theorem arguments_call_shape_witness:
  "arguments publish [PyInt 1, PyStr ''amq.topic'', PyStr ''news''] []
     = Inr [PyInt 1, PyStr ''amq.topic'', PyStr ''news''] \<and>
   arguments publish []
       [(''routing_key'', PyStr ''news''), (''reserved'', PyInt 1), (''exchange'', PyStr ''amq.topic'')]
     = Inr [PyInt 1, PyStr ''amq.topic'', PyStr ''news''] \<and>
   arguments publish [PyInt 1] [(''routing_key'', PyStr ''news'')]
     = Inr [PyInt 1, PyStr '''', PyStr ''news''] \<and>
   DEFAULTS (field_type (items (method_fields publish) ! 1)) = Some (PyStr '''')"
proof -
  let ?vs = "[PyInt 1, PyStr ''amq.topic'', PyStr ''news'']"
  let ?kw = "[(''routing_key'', PyStr ''news''), (''reserved'', PyInt 1), (''exchange'', PyStr ''amq.topic'')]"
  let ?tup = "[PyInt 1, PyStr '''', PyStr ''news'']"
  have reach: "method_fields publish = adds field_name field_id SpecContainer publish_fields"
    by (simp add: publish_def)
  note t = arguments_call_shape [OF reach refl, of ?vs ?kw "[PyInt 1]" "[(''routing_key'', PyStr ''news'')]" ?tup 1]
  have len: "length ?vs = length (items (method_fields publish))"
    by (simp add: publish_items publish_fields_def)
  have kw: "distinct (map fst ?kw) \<and> map_of ?kw = map_of (zip (map field_name (items (method_fields publish))) ?vs)"
    by (auto simp: publish_items publish_fields_def fun_eq_iff)
  have om: "arguments publish [PyInt 1] [(''routing_key'', PyStr ''news'')] = Inr ?tup"
    by (simp add: arguments_def publish_def publish_fields_def add_def SpecContainer_def
        has_key_def index_def DEFAULTS_def pop_def)
  have i: "1 < length (items (method_fields publish)) \<and> length [PyInt 1] \<le> 1 \<and>
      map_of [(''routing_key'', PyStr ''news'')] (field_name (items (method_fields publish) ! 1)) = None"
    by (simp add: publish_items publish_fields_def)
  from t len kw om i show ?thesis by simp
qed

text \<open>
  C2. \<open>arguments\<close> raises the "takes at most" error exactly when there are more
  positional and keyword values than fields. Otherwise, once the first loop has filled
  the fields (with the positional value where the position of the field is below
  \<open>length args\<close>, else with the keyword argument of its name, else with the default of
  its type), the keyword arguments left are those that name no field at or after
  position \<open>length args\<close>; each of them names a field that got a positional value,
  or no field at all. If none is left the result tuple is returned; if some are, the
  call fails for the first of them, with "multiple values" when it names a field (one
  filled positionally) and with "unexpected keyword" when it names none.
\<close>

theorem arguments_failures:
  assumes reach: "method_fields m = adds field_name field_id SpecContainer xs"
    and fs: "fs = items (method_fields m)"
  shows "((\<exists>a b. arguments m args kw = Inl (TooManyArguments a b)) \<longleftrightarrow>
            length args + length kw > length fs) \<and>
     (length args + length kw \<le> length fs \<and>
      fill (method_fields m) args fs kw [] = Inr (res, rest) \<longrightarrow>
        length res = length fs \<and>
        (\<forall>i < length fs. Some (res ! i) = val_of args kw i (fs ! i)) \<and>
        rest = filter (\<lambda>(key, v). key \<notin> field_name ` set (drop (length args) fs)) kw \<and>
        (\<forall>(key, v) \<in> set rest.
            key \<in> field_name ` set (take (length args) fs) \<or> key \<notin> field_name ` set fs) \<and>
        (case rest of
           [] \<Rightarrow> arguments m args kw = Inr res
         | (key, v) # rest' \<Rightarrow>
             arguments m args kw =
               Inl (if key \<in> field_name ` set (take (length args) fs) then MultipleValues key
                    else UnknownArgument key)))"
proof -
  note inv = reach_fields [OF reach]
  let ?c = "method_fields m"
  have b: "length res = length fs \<and>
        (\<forall>i < length fs. Some (res ! i) = val_of args kw i (fs ! i)) \<and>
        rest = filter (\<lambda>(key, v). key \<notin> field_name ` set (drop (length args) fs)) kw \<and>
        (\<forall>(key, v) \<in> set rest.
            key \<in> field_name ` set (take (length args) fs) \<or> key \<notin> field_name ` set fs) \<and>
        (case rest of
           [] \<Rightarrow> arguments m args kw = Inr res
         | (key, v) # rest' \<Rightarrow>
             arguments m args kw =
               Inl (if key \<in> field_name ` set (take (length args) fs) then MultipleValues key
                    else UnknownArgument key))"
    if le: "length args + length kw \<le> length fs"
      and f: "fill (method_fields m) args fs kw [] = Inr (res, rest)"
  proof -
    from f have f': "fill ?c args (items ?c) kw [] = Inr (res, rest)" by (simp add: fs)
    note fi = fill_items [OF inv f']
    have r: "rest = filter (\<lambda>(key, v). key \<notin> field_name ` set (drop (length args) fs)) kw"
      using fi(2) by (simp add: unconsumed_def fs)
    have cl: "\<forall>(key, v) \<in> set rest.
            key \<in> field_name ` set (take (length args) fs) \<or> key \<notin> field_name ` set fs"
      using fi(2) unconsumed_classes [of _ _ args fs kw] by (auto simp: fs)
    have hd: "arguments m args kw =
               Inl (if key \<in> field_name ` set (take (length args) fs) then MultipleValues key
                    else UnknownArgument key)" if rest: "rest = (key, v) # rest'" for key v rest'
    proof -
      from cl rest have c: "key \<in> field_name ` set (take (length args) fs) \<or> key \<notin> field_name ` set fs"
        by auto
      have "set (take (length args) fs) \<subseteq> set fs" by (rule set_take_subset)
      with c have "has_key (byname ?c) key \<longleftrightarrow> key \<in> field_name ` set (take (length args) fs)"
        using inv_has_name [OF inv, of key] by (auto simp: fs)
      with le f' rest show ?thesis by (simp add: arguments_def fs)
    qed
    have emp: "arguments m args kw = Inr res" if "rest = []"
      using le f' that by (simp add: arguments_def fs)
    have c3: "case rest of
           [] \<Rightarrow> arguments m args kw = Inr res
         | (key, v) # rest' \<Rightarrow>
             arguments m args kw =
               Inl (if key \<in> field_name ` set (take (length args) fs) then MultipleValues key
                    else UnknownArgument key)"
    proof (cases rest)
      case Nil
      with emp show ?thesis by simp
    next
      case (Cons p rest')
      obtain key v where p: "p = (key, v)" by (cases p)
      from hd [of key v rest'] Cons p show ?thesis by simp
    qed
    have ln: "length res = length fs" using fi(1) by (simp add: length_vals fs)
    have vl: "\<forall>i < length fs. Some (res ! i) = val_of args kw i (fs ! i)"
    proof (intro allI impI)
      fix i assume i: "i < length fs"
      with fi(3) have "val_of args kw i (fs ! i) \<noteq> None" by (simp add: fs)
      moreover from i fi(1) have "res ! i = the (val_of args kw i (fs ! i))"
        by (simp add: nth_vals fs)
      ultimately show "Some (res ! i) = val_of args kw i (fs ! i)" by auto
    qed
    show ?thesis by (intro conjI) (fact ln, fact vl, fact r, fact cl, fact c3)
  qed
  have a: "(\<exists>a b. arguments m args kw = Inl (TooManyArguments a b)) \<longleftrightarrow>
            length args + length kw > length fs"
    unfolding fs by (rule arguments_too_many_iff)
  from a b show ?thesis by blast
qed

theorem arguments_failures_witness:
  "length [PyInt 1] + length [(''reserved'', PyStr ''news'')] \<le> length (items (method_fields publish)) \<and>
   fill (method_fields publish) [PyInt 1] (items (method_fields publish)) [(''reserved'', PyStr ''news'')] []
     = Inr ([PyInt 1, PyStr '''', PyStr ''''], [(''reserved'', PyStr ''news'')]) \<and>
   arguments publish [PyInt 1] [(''reserved'', PyStr ''news'')] = Inl (MultipleValues ''reserved'') \<and>
   fill (method_fields publish) [PyInt 1] (items (method_fields publish)) [(''bogus'', PyNone)] []
     = Inr ([PyInt 1, PyStr '''', PyStr ''''], [(''bogus'', PyNone)]) \<and>
   arguments publish [PyInt 1] [(''bogus'', PyNone)] = Inl (UnknownArgument ''bogus'') \<and>
   length [PyInt 1, PyInt 2, PyInt 3] + length [(''bogus'', PyNone)] > length (items (method_fields publish)) \<and>
   (\<exists>a b. arguments publish [PyInt 1, PyInt 2, PyInt 3] [(''bogus'', PyNone)] = Inl (TooManyArguments a b))"
proof -
  have reach: "method_fields publish = adds field_name field_id SpecContainer publish_fields"
    by (simp add: publish_def)
  have len: "length (items (method_fields publish)) = 3"
    by (simp add: publish_items publish_fields_def)
  have f1: "fill (method_fields publish) [PyInt 1] (items (method_fields publish))
      [(''reserved'', PyStr ''news'')] [] = Inr ([PyInt 1, PyStr '''', PyStr ''''], [(''reserved'', PyStr ''news'')])"
    by (simp add: publish_def publish_fields_def add_def SpecContainer_def
        has_key_def index_def DEFAULTS_def pop_def)
  have f2: "fill (method_fields publish) [PyInt 1] (items (method_fields publish))
      [(''bogus'', PyNone)] [] = Inr ([PyInt 1, PyStr '''', PyStr ''''], [(''bogus'', PyNone)])"
    by (simp add: publish_def publish_fields_def add_def SpecContainer_def
        has_key_def index_def DEFAULTS_def pop_def)
  note t1 = arguments_failures [OF reach refl, of "[PyInt 1]" "[(''reserved'', PyStr ''news'')]"
      "[PyInt 1, PyStr '''', PyStr '''']" "[(''reserved'', PyStr ''news'')]"]
  note t2 = arguments_failures [OF reach refl, of "[PyInt 1]" "[(''bogus'', PyNone)]"
      "[PyInt 1, PyStr '''', PyStr '''']" "[(''bogus'', PyNone)]"]
  note t3 = arguments_failures [OF reach refl, of "[PyInt 1, PyInt 2, PyInt 3]" "[(''bogus'', PyNone)]"]
  have a1: "arguments publish [PyInt 1] [(''reserved'', PyStr ''news'')] = Inl (MultipleValues ''reserved'')"
    using t1 f1 len by (simp add: publish_items publish_fields_def)
  have a2: "arguments publish [PyInt 1] [(''bogus'', PyNone)] = Inl (UnknownArgument ''bogus'')"
    using t2 f2 len by (simp add: publish_items publish_fields_def)
  have a3: "\<exists>a b. arguments publish [PyInt 1, PyInt 2, PyInt 3] [(''bogus'', PyNone)] = Inl (TooManyArguments a b)"
    using t3 len by simp
  from f1 f2 a1 a2 a3 len show ?thesis by simp
qed

section \<open>Properties of alias resolution\<close>

lemma resolve_type_fixed:
  assumes "resolve_type domains ty = Some r"
  shows "fixed_type domains r"
proof (rule resolve_type.raw_induct [where P = "\<lambda>d t r. fixed_type d r", OF _ assms])
  fix f :: "(string \<rightharpoonup> string) \<Rightarrow> string \<Rightarrow> string option" and d t r
  assume IH: "\<And>d t r. f d t = Some r \<Longrightarrow> fixed_type d r"
    and eq: "(if has_key d t \<and> d t \<noteq> Some t then f d (the (d t)) else Some t) = Some r"
  show "fixed_type d r"
  proof (cases "has_key d t \<and> d t \<noteq> Some t")
    case True
    with eq have "f d (the (d t)) = Some r" by simp
    then show ?thesis by (rule IH)
  next
    case False
    with eq have "r = t" by simp
    with False show ?thesis by (auto simp: fixed_type_def has_key_def)
  qed
qed

lemma finite_alias_step: "finite (dom domains) \<Longrightarrow> finite (alias_step domains)"
proof -
  assume fin: "finite (dom domains)"
  have "alias_step domains \<subseteq> (\<lambda>t. (t, the (domains t))) ` dom domains"
    by (auto simp: alias_step_def image_iff)
  with fin show ?thesis by (meson finite_imageI finite_subset)
qed

lemma resolve_type_terminates:
  assumes fin: "finite (dom domains)" and acyc: "acyclic (alias_step domains)"
  shows "\<exists>r. resolve_type domains ty = Some r"
proof -
  from fin have "finite ((alias_step domains)\<inverse>)" by (simp add: finite_alias_step)
  moreover from acyc have "acyclic ((alias_step domains)\<inverse>)" by simp
  ultimately have "wf ((alias_step domains)\<inverse>)" by (rule finite_acyclic_wf)
  then show ?thesis
  proof (induction ty rule: wf_induct_rule)
    case (less t)
    show ?case
    proof (cases "has_key domains t \<and> domains t \<noteq> Some t")
      case True
      then obtain u where u: "domains t = Some u" "u \<noteq> t" by (auto simp: has_key_def)
      then have "(u, t) \<in> (alias_step domains)\<inverse>" by (simp add: alias_step_def)
      from less.IH [OF this] obtain r where "resolve_type domains u = Some r" ..
      with True u show ?thesis by (subst resolve_type.simps) simp
    next
      case False
      then have "resolve_type domains t = Some t"
        by (subst resolve_type.simps) auto
      then show ?thesis ..
    qed
  qed
qed


text \<open>
  C5, as amended. On a finite \<open>domains\<close> in which following aliases from one name to
  a different one never comes back to a name already seen, the loop ends for every
  type; and whenever the loop ends, on any \<open>domains\<close>, its result is a name that is
  no key of \<open>domains\<close> or is mapped to itself.
\<close>

theorem resolve_type_acyclic:
  "(finite (dom domains) \<and> acyclic (alias_step domains) \<longrightarrow>
      (\<exists>r. resolve_type domains ty = Some r)) \<and>
   (\<forall>r. resolve_type domains ty = Some r \<longrightarrow> fixed_type domains r)"
  using resolve_type_terminates [of domains ty] resolve_type_fixed [of domains ty]
  by blast

theorem resolve_type_acyclic_witness:
  "finite (dom [''a'' \<mapsto> ''b'', ''b'' \<mapsto> ''b'']) \<and>
   acyclic (alias_step [''a'' \<mapsto> ''b'', ''b'' \<mapsto> ''b'']) \<and>
   resolve_type [''a'' \<mapsto> ''b'', ''b'' \<mapsto> ''b''] ''a'' = Some ''b'' \<and>
   fixed_type [''a'' \<mapsto> ''b'', ''b'' \<mapsto> ''b''] ''b''"
proof -
  let ?d = "[''a'' \<mapsto> ''b'', ''b'' \<mapsto> ''b'']"
  have fin: "finite (dom ?d)" by simp
  have "alias_step ?d = {(''a'', ''b'')}"
    by (auto simp: alias_step_def split: if_splits)
  then have acyc: "acyclic (alias_step ?d)"
    by (simp add: wf_acyclic)
  have b: "resolve_type ?d ''b'' = Some ''b''"
    by (subst resolve_type.simps) (simp add: has_key_def)
  have a: "resolve_type ?d ''a'' = Some ''b''"
    by (subst resolve_type.simps) (simp add: has_key_def b)
  from resolve_type_acyclic [of ?d "''a''"] fin acyc a show ?thesis by simp
qed

text \<open>
  C5 as stated fails: on the finite map that sends \<open>a\<close> to \<open>b\<close> and \<open>b\<close> to
  \<open>a\<close> the loop does not end.
\<close>

theorem resolve_type_counterexample:
  "resolve_type [''a'' \<mapsto> ''b'', ''b'' \<mapsto> ''a''] ''a'' = None"
proof (cases "resolve_type [''a'' \<mapsto> ''b'', ''b'' \<mapsto> ''a''] ''a''")
  case None
  then show ?thesis .
next
  case (Some r)
  let ?d = "[''a'' \<mapsto> ''b'', ''b'' \<mapsto> ''a'']"
  have "\<not> (?d = ?d \<and> (''a'' = ''a'' \<or> ''a'' = ''b''))"
  proof (rule resolve_type.raw_induct
      [where P = "\<lambda>d t r. \<not> (d = ?d \<and> (t = ''a'' \<or> t = ''b''))", OF _ Some])
    fix f :: "(string \<rightharpoonup> string) \<Rightarrow> string \<Rightarrow> string option" and d t r
    assume IH: "\<And>d t r. f d t = Some r \<Longrightarrow> \<not> (d = ?d \<and> (t = ''a'' \<or> t = ''b''))"
      and eq: "(if has_key d t \<and> d t \<noteq> Some t then f d (the (d t)) else Some t) = Some r"
    show "\<not> (d = ?d \<and> (t = ''a'' \<or> t = ''b''))"
    proof
      assume a: "d = ?d \<and> (t = ''a'' \<or> t = ''b'')"
      then have "has_key d t \<and> d t \<noteq> Some t" "the (d t) = ''a'' \<or> the (d t) = ''b''"
        by (auto simp: has_key_def)
      with eq have "f d (the (d t)) = Some r" by simp
      from IH [OF this] a \<open>the (d t) = ''a'' \<or> the (d t) = ''b''\<close> show False by simp
    qed
  qed
  then show ?thesis by simp
qed

section \<open>Properties of Node.get_bool\<close>

lemma get_attr_absent:
  assumes "node_attrs nd = Some attrs" and "attrs k = None"
  shows "get nd (StrKey (CHR ''@'' # k)) dflt = Inr dflt"
  using assms by (simp add: get_def has_def getstr_def attribute_def)

lemma get_attr_present:
  assumes "node_attrs nd = Some attrs" and "attrs k = Some v"
  shows "get nd (StrKey (CHR ''@'' # k)) dflt = Inr (Some (Text v))"
  using assms by (simp add: get_def has_def getstr_def attribute_def)

lemma py_int_0: "py_int ''0'' = Inr 0"
  by (simp add: py_int_def strip_def is_space_def is_digit_def digits_value_def)

lemma py_int_1: "py_int ''1'' = Inr 1"
  by (simp add: py_int_def strip_def is_space_def is_digit_def digits_value_def)

text \<open>
  For an attribute key (\<open>@\<close> followed by the attribute name) on a node that has an
  attribute mapping, \<open>get_bool\<close> returns the default when the attribute is absent,
  \<open>False\<close> when its text is \<open>0\<close> and \<open>True\<close> when its text is \<open>1\<close>.
\<close>

lemma get_bool_attribute:
  assumes "node_attrs nd = Some attrs"
  shows "(attrs k = None \<longrightarrow> get_bool nd (StrKey (CHR ''@'' # k)) d = Inr d) \<and>
         (attrs k = Some ''0'' \<longrightarrow> get_bool nd (StrKey (CHR ''@'' # k)) d = Inr False) \<and>
         (attrs k = Some ''1'' \<longrightarrow> get_bool nd (StrKey (CHR ''@'' # k)) d = Inr True)"
  using assms
  by (simp add: get_bool_def get_attr_absent get_attr_present py_int_0 py_int_1)

lemma get_bool_attribute_example:
  "get_bool (Node ''method'' (Some [''content'' \<mapsto> ''1'']) None []) (StrKey ''@content'') False = Inr True \<and>
   get_bool (Node ''method'' (Some [''content'' \<mapsto> ''1'']) None []) (StrKey ''@synchronous'') False = Inr False \<and>
   get_bool (Node ''method'' (Some [''content'' \<mapsto> ''0'']) None []) (StrKey ''@content'') True = Inr False"
proof -
  let ?a = "[''content'' \<mapsto> ''1'']"
  let ?b = "[''content'' \<mapsto> ''0'']"
  note t1 = get_bool_attribute [of "Node ''method'' (Some ?a) None []" ?a "''content''" False]
  note t2 = get_bool_attribute [of "Node ''method'' (Some ?a) None []" ?a "''synchronous''" False]
  note t3 = get_bool_attribute [of "Node ''method'' (Some ?b) None []" ?b "''content''" True]
  from t1 t2 t3 show ?thesis by simp
qed

text \<open>
  C9. \<open>get_bool\<close> does not return the default for every absent key, and the code
  departs here from its own docstrings. For a key that is the name of a child,
  \<open>__getstr__\<close> returns the list of the children of that name, which is empty and
  not an error when there is none: so \<open>has\<close> is \<open>True\<close> for every such key, whether
  the node has a child of that name or not (its docstring: a True/False value if a node
  has the key as a name of a node or attribute), \<open>get\<close> returns the list and never
  its default, and \<open>get_bool\<close> raises \<open>TypeError\<close> from \<open>int\<close> of a list, for
  every node and every default (its docstring: the value of a node or an attribute of a
  node as a True/False value). On a node whose attributes are \<open>None\<close>, as the root
  that \<open>parse\<close> creates, an attribute key raises \<open>TypeError\<close> from the subscript
  of \<open>None\<close>, which \<open>has\<close> does not catch; \<open>createTag\<close> of the same module
  allows for attributes that are \<open>None\<close>.
\<close>

theorem get_bool_raises:
  "(take 1 name \<noteq> ''@'' \<longrightarrow>
      has nd (StrKey name) = Inr True \<and>
      get nd (StrKey name) dflt = Inr (Some (Nodes (children_named nd name))) \<and>
      get_bool nd (StrKey name) d = Inl TypeError) \<and>
   (node_attrs nd = None \<longrightarrow>
      has nd (StrKey (CHR ''@'' # k)) = Inl TypeError \<and>
      get_bool nd (StrKey (CHR ''@'' # k)) d = Inl TypeError)"
  by (simp add: get_bool_def get_def has_def getstr_def attribute_def)

theorem get_bool_raises_witness:
  "take 1 ''content'' \<noteq> ''@'' \<and>
   children_named (Node ''method'' (Some Map.empty) None []) ''content'' = [] \<and>
   has (Node ''method'' (Some Map.empty) None []) (StrKey ''content'') = Inr True \<and>
   get (Node ''method'' (Some Map.empty) None []) (StrKey ''content'') None = Inr (Some (Nodes [])) \<and>
   get_bool (Node ''method'' (Some Map.empty) None []) (StrKey ''content'') True = Inl TypeError \<and>
   node_attrs (Node ''root'' None None []) = None \<and>
   get_bool (Node ''root'' None None []) (StrKey ''@content'') True = Inl TypeError"
  using get_bool_raises [of "''content''" "Node ''method'' (Some Map.empty) None []" None True]
        get_bool_raises [of _ "Node ''root'' None None []" _ True "''content''"]
  by (simp add: children_named_def)

section \<open>Properties of the loader\<close>

lemma and_then_simps:
  "and_then None f = None"
  "and_then (Some (Inl e)) f = Some (Inl e)"
  "and_then (Some (Inr x)) f = f x"
  "and_then (returns x) f = f x"
  "and_then (raises e) f = raises e"
  by (simp_all add: and_then_def returns_def raises_def)

lemma and_then_Inr:
  "and_then m f = Some (Inr y) \<longleftrightarrow> (\<exists>x. m = Some (Inr x) \<and> f x = Some (Inr y))"
  by (auto simp: and_then_def split: option.splits sum.splits)

lemma for_each_append:
  "for_each body (xs @ ys) s = and_then (for_each body xs s) (for_each body ys)"
proof (induction xs arbitrary: s)
  case Nil
  show ?case by (simp add: and_then_simps)
next
  case (Cons x xs)
  show ?case
  proof (cases "body x s")
    case None
    then show ?thesis by (simp add: and_then_simps)
  next
    case (Some r)
    then show ?thesis by (cases r) (simp_all add: and_then_simps Cons.IH)
  qed
qed

lemma for_each_abort:
  assumes "for_each body xs s = Some (Inr s')" and "body x s' = Some (Inl e)"
  shows "for_each body (xs @ x # ys) s = Some (Inl e)"
  using assms by (simp add: for_each_append and_then_simps)

lemma load_unfold:
  assumes "amqp_root doc = Inr spec_root"
    and "int_attribute spec_root ''major'' = Inr major"
    and "int_attribute spec_root ''minor'' = Inr minor"
    and "comprehension amqp_root errata = Inr roots"
  shows "load post_load specfile doc errata =
     and_then (for_each load_root ((True, spec_root) # map (Pair False) roots)
                 (initial_store major minor specfile))
       (\<lambda>st. case post_load st of Some e \<Rightarrow> raises e | None \<Rightarrow> returns st)"
  using assms by (simp add: load_def)

lemma load_returns_iff:
  "load post_load specfile doc errata = Some (Inr st) \<longleftrightarrow>
     (\<exists>spec_root major minor roots.
        amqp_root doc = Inr spec_root \<and>
        int_attribute spec_root ''major'' = Inr major \<and>
        int_attribute spec_root ''minor'' = Inr minor \<and>
        comprehension amqp_root errata = Inr roots \<and>
        for_each load_root ((True, spec_root) # map (Pair False) roots)
          (initial_store major minor specfile) = Some (Inr st) \<and>
        post_load st = None)"
proof
  assume r: "load post_load specfile doc errata = Some (Inr st)"
  then obtain spec_root where a: "amqp_root doc = Inr spec_root"
    by (cases "amqp_root doc") (simp_all add: load_def raises_def)
  with r obtain major where b: "int_attribute spec_root ''major'' = Inr major"
    by (cases "int_attribute spec_root ''major''") (simp_all add: load_def raises_def)
  with r a obtain minor where c: "int_attribute spec_root ''minor'' = Inr minor"
    by (cases "int_attribute spec_root ''minor''") (simp_all add: load_def raises_def)
  with r a b obtain roots where d: "comprehension amqp_root errata = Inr roots"
    by (cases "comprehension amqp_root errata") (simp_all add: load_def raises_def)
  from r have "and_then (for_each load_root ((True, spec_root) # map (Pair False) roots)
                 (initial_store major minor specfile))
       (\<lambda>st. case post_load st of Some e \<Rightarrow> raises e | None \<Rightarrow> returns st) = Some (Inr st)"
    by (simp only: load_unfold [OF a b c d])
  then obtain x where x: "for_each load_root ((True, spec_root) # map (Pair False) roots)
                 (initial_store major minor specfile) = Some (Inr x)"
    and p: "(case post_load x of Some e \<Rightarrow> raises e | None \<Rightarrow> returns x) = Some (Inr st)"
    by (auto simp: and_then_Inr)
  from p have "post_load x = None \<and> x = st"
    by (cases "post_load x") (simp_all add: raises_def returns_def)
  with a b c d x show "\<exists>spec_root major minor roots.
        amqp_root doc = Inr spec_root \<and>
        int_attribute spec_root ''major'' = Inr major \<and>
        int_attribute spec_root ''minor'' = Inr minor \<and>
        comprehension amqp_root errata = Inr roots \<and>
        for_each load_root ((True, spec_root) # map (Pair False) roots)
          (initial_store major minor specfile) = Some (Inr st) \<and>
        post_load st = None" by blast
next
  assume "\<exists>spec_root major minor roots.
        amqp_root doc = Inr spec_root \<and>
        int_attribute spec_root ''major'' = Inr major \<and>
        int_attribute spec_root ''minor'' = Inr minor \<and>
        comprehension amqp_root errata = Inr roots \<and>
        for_each load_root ((True, spec_root) # map (Pair False) roots)
          (initial_store major minor specfile) = Some (Inr st) \<and>
        post_load st = None"
  then obtain spec_root major minor roots where a: "amqp_root doc = Inr spec_root"
    and b: "int_attribute spec_root ''major'' = Inr major"
    and c: "int_attribute spec_root ''minor'' = Inr minor"
    and d: "comprehension amqp_root errata = Inr roots"
    and x: "for_each load_root ((True, spec_root) # map (Pair False) roots)
          (initial_store major minor specfile) = Some (Inr st)"
    and p: "post_load st = None" by blast
  show "load post_load specfile doc errata = Some (Inr st)"
    by (simp only: load_unfold [OF a b c d] x and_then_simps p option.case returns_def)
qed

lemma load_aborts:
  assumes a: "amqp_root doc = Inr spec_root"
    and b: "int_attribute spec_root ''major'' = Inr major"
    and c: "int_attribute spec_root ''minor'' = Inr minor"
    and d: "comprehension amqp_root errata = Inr roots"
    and i: "i < length ((True, spec_root) # map (Pair False) roots)"
    and x: "for_each load_root (take i ((True, spec_root) # map (Pair False) roots))
          (initial_store major minor specfile) = Some (Inr s')"
    and e: "load_root (((True, spec_root) # map (Pair False) roots) ! i) s' = Some (Inl e)"
  shows "load post_load specfile doc errata = Some (Inl e)"
proof -
  let ?docs = "(True, spec_root) # map (Pair False) roots"
  from i have "?docs = take i ?docs @ ?docs ! i # drop (Suc i) ?docs"
    by (rule id_take_nth_drop)
  then have "for_each load_root ?docs (initial_store major minor specfile) =
      for_each load_root (take i ?docs @ ?docs ! i # drop (Suc i) ?docs) (initial_store major minor specfile)"
    by simp
  also have "\<dots> = Some (Inl e)" using x e by (rule for_each_abort)
  finally show ?thesis
    by (simp only: load_unfold [OF a b c d] and_then_simps)
qed

lemma load_malformed:
  "amqp_root doc = Inl e \<Longrightarrow> load post_load specfile doc errata = Some (Inl e)"
  "amqp_root doc = Inr spec_root \<Longrightarrow> int_attribute spec_root ''major'' = Inl e \<Longrightarrow>
     load post_load specfile doc errata = Some (Inl e)"
  "amqp_root doc = Inr spec_root \<Longrightarrow> int_attribute spec_root ''major'' = Inr major \<Longrightarrow>
     int_attribute spec_root ''minor'' = Inl e \<Longrightarrow>
     load post_load specfile doc errata = Some (Inl e)"
  by (simp_all add: load_def raises_def)

lemma for_each_abort_at:
  assumes "i < length xs" and "for_each body (take i xs) s = Some (Inr s')"
    and "body (xs ! i) s' = Some (Inl e)"
  shows "for_each body xs s = Some (Inl e)"
proof -
  from assms(1) have "xs = take i xs @ xs ! i # drop (Suc i) xs"
    by (rule id_take_nth_drop)
  then have "for_each body xs s = for_each body (take i xs @ xs ! i # drop (Suc i) xs) s"
    by simp
  also have "\<dots> = Some (Inl e)" using assms(2,3) by (rule for_each_abort)
  finally show ?thesis .
qed

lemma load_root_constant_aborts:
  assumes "i < length (children_named root ''constant'')"
    and "for_each load_constant (take i (children_named root ''constant'')) st = Some (Inr s')"
    and "load_constant (children_named root ''constant'' ! i) s' = Some (Inl e)"
  shows "load_root (primary, root) st = Some (Inl e)"
  using for_each_abort_at [OF assms] by (simp add: load_root_def and_then_simps)

lemma load_root_class_aborts:
  assumes "for_each load_constant (children_named root ''constant'') st = Some (Inr st1)"
    and "load_domains (children_named root ''domain'') Map.empty = Inr domains"
    and "i < length (children_named root ''class'')"
    and "for_each (load_class primary domains) (take i (children_named root ''class'')) st1 = Some (Inr s')"
    and "load_class primary domains (children_named root ''class'' ! i) s' = Some (Inl e)"
  shows "load_root (primary, root) st = Some (Inl e)"
  using for_each_abort_at [OF assms(3,4,5)] assms(1,2)
  by (simp add: load_root_def and_then_simps)

text \<open>The definitions that evaluate \<open>load\<close> on the example documents.\<close>

lemmas eval_defs = amqp_root_def children_named_def int_attribute_def attribute_def
  tag_def py_int_def strip_def is_space_def is_digit_def digits_value_def
  load_root_def load_constant_def load_class_def get_class_def load_fields_def load_field_def
  field_nodes_def load_method_def get_method_def new_method_def response_names_def
  resolve_responses_def resolve_response_def mark_response_def set_method_def set_klass_def
  klass_at_def method_at_def lookup_def add_or_raise_def add_def has_key_def SpecContainer_def
  pythonize_def KEYWORDS_def get_docs_def get_bool_def get_def has_def getstr_def
  and_then_def returns_def raises_def no_post_load_def enumerate_eq_zip Let_def
  initial_store_def resolve_type.simps

lemmas doc_defs = primary_doc_def primary_root_def primary_class_def primary_publish_def
  errata_field_doc_def errata_field_root_def errata_field_method_def
  errata_field_class_def errata_method_doc_def errata_method_root_def errata_method_method_def
  errata_class_doc_def errata_class_root_def errata_class_class_def orphan_class_def
  errata_constant_root_def


text \<open>
  C8. \<open>load\<close> returns a model exactly when the root and the version attributes of
  the primary document are read, every overlay has a root, the loop over all documents
  runs to its end and \<open>post_load\<close> does not raise; the model returned is the one
  reached after the last document. An exception in reading the version, in processing a
  document, or in processing a constant or a class of a document, is the outcome of the
  whole call, whatever comes after the failing step: nothing is returned beside it.
\<close>

theorem load_all_or_nothing:
  "(load post_load specfile doc errata = Some (Inr st) \<longleftrightarrow>
     (\<exists>spec_root major minor roots.
        amqp_root doc = Inr spec_root \<and>
        int_attribute spec_root ''major'' = Inr major \<and>
        int_attribute spec_root ''minor'' = Inr minor \<and>
        comprehension amqp_root errata = Inr roots \<and>
        for_each load_root ((True, spec_root) # map (Pair False) roots)
          (initial_store major minor specfile) = Some (Inr st) \<and>
        post_load st = None)) \<and>
   (amqp_root doc = Inr spec_root \<and> int_attribute spec_root ''major'' = Inl e \<longrightarrow>
      load post_load specfile doc errata = Some (Inl e)) \<and>
   (amqp_root doc = Inr spec_root \<and> int_attribute spec_root ''major'' = Inr major \<and>
    int_attribute spec_root ''minor'' = Inl e \<longrightarrow>
      load post_load specfile doc errata = Some (Inl e)) \<and>
   (amqp_root doc = Inr spec_root \<and> int_attribute spec_root ''major'' = Inr major \<and>
    int_attribute spec_root ''minor'' = Inr minor \<and>
    comprehension amqp_root errata = Inr roots \<and>
    i < length ((True, spec_root) # map (Pair False) roots) \<and>
    (\<exists>s'. for_each load_root (take i ((True, spec_root) # map (Pair False) roots))
             (initial_store major minor specfile) = Some (Inr s') \<and>
          load_root (((True, spec_root) # map (Pair False) roots) ! i) s' = Some (Inl e)) \<longrightarrow>
      load post_load specfile doc errata = Some (Inl e)) \<and>
   (j < length (children_named root ''constant'') \<and>
    (\<exists>s'. for_each load_constant (take j (children_named root ''constant'')) st0 = Some (Inr s') \<and>
          load_constant (children_named root ''constant'' ! j) s' = Some (Inl e)) \<longrightarrow>
      load_root (primary, root) st0 = Some (Inl e)) \<and>
   (j < length (children_named root ''class'') \<and>
    (\<exists>st1 s'. for_each load_constant (children_named root ''constant'') st0 = Some (Inr st1) \<and>
          load_domains (children_named root ''domain'') Map.empty = Inr domains \<and>
          for_each (load_class primary domains) (take j (children_named root ''class'')) st1 = Some (Inr s') \<and>
          load_class primary domains (children_named root ''class'' ! j) s' = Some (Inl e)) \<longrightarrow>
      load_root (primary, root) st0 = Some (Inl e))"
proof -
  have 1: "load post_load specfile doc errata = Some (Inr st) \<longleftrightarrow>
     (\<exists>spec_root major minor roots.
        amqp_root doc = Inr spec_root \<and>
        int_attribute spec_root ''major'' = Inr major \<and>
        int_attribute spec_root ''minor'' = Inr minor \<and>
        comprehension amqp_root errata = Inr roots \<and>
        for_each load_root ((True, spec_root) # map (Pair False) roots)
          (initial_store major minor specfile) = Some (Inr st) \<and>
        post_load st = None)"
    by (rule load_returns_iff)
  have 2: "amqp_root doc = Inr spec_root \<and> int_attribute spec_root ''major'' = Inl e \<longrightarrow>
      load post_load specfile doc errata = Some (Inl e)"
    by (simp add: load_malformed)
  have 3: "amqp_root doc = Inr spec_root \<and> int_attribute spec_root ''major'' = Inr major \<and>
    int_attribute spec_root ''minor'' = Inl e \<longrightarrow>
      load post_load specfile doc errata = Some (Inl e)"
    by (simp add: load_malformed)
  have 4: "amqp_root doc = Inr spec_root \<and> int_attribute spec_root ''major'' = Inr major \<and>
    int_attribute spec_root ''minor'' = Inr minor \<and>
    comprehension amqp_root errata = Inr roots \<and>
    i < length ((True, spec_root) # map (Pair False) roots) \<and>
    (\<exists>s'. for_each load_root (take i ((True, spec_root) # map (Pair False) roots))
             (initial_store major minor specfile) = Some (Inr s') \<and>
          load_root (((True, spec_root) # map (Pair False) roots) ! i) s' = Some (Inl e)) \<longrightarrow>
      load post_load specfile doc errata = Some (Inl e)"
    using load_aborts [of doc spec_root major minor errata roots i specfile _ e post_load]
    by blast
  have 5: "j < length (children_named root ''constant'') \<and>
    (\<exists>s'. for_each load_constant (take j (children_named root ''constant'')) st0 = Some (Inr s') \<and>
          load_constant (children_named root ''constant'' ! j) s' = Some (Inl e)) \<longrightarrow>
      load_root (primary, root) st0 = Some (Inl e)"
    using load_root_constant_aborts [of j root st0 _ e primary] by blast
  have 6: "j < length (children_named root ''class'') \<and>
    (\<exists>st1 s'. for_each load_constant (children_named root ''constant'') st0 = Some (Inr st1) \<and>
          load_domains (children_named root ''domain'') Map.empty = Inr domains \<and>
          for_each (load_class primary domains) (take j (children_named root ''class'')) st1 = Some (Inr s') \<and>
          load_class primary domains (children_named root ''class'' ! j) s' = Some (Inl e)) \<longrightarrow>
      load_root (primary, root) st0 = Some (Inl e)"
    using load_root_class_aborts [of root st0 _ domains j primary _ e] by blast
  show ?thesis by (intro conjI) (fact 1, fact 2, fact 3, fact 4, fact 5, fact 6)
qed

theorem load_all_or_nothing_witness:
  "amqp_root primary_doc = Inr primary_root \<and>
   int_attribute primary_root ''major'' = Inr 0 \<and>
   int_attribute primary_root ''minor'' = Inr 8 \<and>
   comprehension amqp_root [errata_method_doc, errata_field_doc]
     = Inr [errata_method_root, errata_field_root] \<and>
   (\<exists>s'. for_each load_root
           (take 1 ((True, primary_root) # map (Pair False) [errata_method_root, errata_field_root]))
           (initial_store 0 8 ''amqp.xml'') = Some (Inr s') \<and>
         load_root (((True, primary_root) # map (Pair False) [errata_method_root, errata_field_root]) ! 1) s'
           = Some (Inl (KeyError ''get''))) \<and>
   load no_post_load ''amqp.xml'' primary_doc [errata_method_doc, errata_field_doc]
     = Some (Inl (KeyError ''get''))"
proof -
  have a: "amqp_root primary_doc = Inr primary_root"
    by (simp add: amqp_root_def children_named_def primary_doc_def primary_root_def tag_def)
  have b: "int_attribute primary_root ''major'' = Inr 0"
    by (simp add: eval_defs primary_root_def)
  have c: "int_attribute primary_root ''minor'' = Inr 8"
    by (simp add: eval_defs primary_root_def)
  have d: "comprehension amqp_root [errata_method_doc, errata_field_doc]
     = Inr [errata_method_root, errata_field_root]"
    by (simp add: amqp_root_def children_named_def errata_method_doc_def errata_method_root_def
        errata_field_doc_def errata_field_root_def tag_def)
  have i: "1 < length ((True, primary_root) # map (Pair False) [errata_method_root, errata_field_root])"
    by simp
  have e: "\<exists>s'. for_each load_root
           (take 1 ((True, primary_root) # map (Pair False) [errata_method_root, errata_field_root]))
           (initial_store 0 8 ''amqp.xml'') = Some (Inr s') \<and>
         load_root (((True, primary_root) # map (Pair False) [errata_method_root, errata_field_root]) ! 1) s'
           = Some (Inl (KeyError ''get''))"
    by (simp add: eval_defs doc_defs)
  from load_all_or_nothing [of no_post_load "''amqp.xml''" primary_doc
      "[errata_method_doc, errata_field_doc]" _ primary_root "KeyError ''get''" 0 8
      "[errata_method_root, errata_field_root]" 1]
    a b c d i e
  have "load no_post_load ''amqp.xml'' primary_doc [errata_method_doc, errata_field_doc]
     = Some (Inl (KeyError ''get''))" by blast
  with a b c d e show ?thesis by blast
qed


section \<open>Properties of load_fields\<close>

lemma adds_append: "adds nm idf c (xs @ ys) = adds nm idf (adds nm idf c xs) ys"
  by (induction xs arbitrary: c) auto

lemma add_or_raise_Inr:
  assumes "add_or_raise nm idf c x = Inr c'"
  shows "c' = snd (add nm idf c x)" and "items c' = items c @ [x]"
    and "byname c (nm x) = None" and "byid c (idf x) = None"
  using assms
  by (auto simp: add_or_raise_def add_def Let_def has_key_def split: if_splits)

lemma load_field_Inr_record:
  assumes "load_field domains (i, f_nd) l = Some (Inr l')"
  shows "\<exists>name ty. add_or_raise field_name field_id l
           \<lparr>field_name = name, field_id = int i, field_type = ty, field_docs = get_docs f_nd\<rparr> = Inr l'"
  using assms
  by (auto simp: load_field_def raises_def split: sum.splits option.splits error.splits)

lemma load_field_Inr:
  assumes "load_field domains (i, f_nd) l = Some (Inr l')"
  shows "\<exists>f. field_id f = int i \<and> add_or_raise field_name field_id l f = Inr l'"
proof -
  from load_field_Inr_record [OF assms] obtain name ty where
    a: "add_or_raise field_name field_id l
           \<lparr>field_name = name, field_id = int i, field_type = ty, field_docs = get_docs f_nd\<rparr> = Inr l'"
    by blast
  have "field_id \<lparr>field_name = name, field_id = int i, field_type = ty, field_docs = get_docs f_nd\<rparr> = int i"
    by simp
  with a show ?thesis by blast
qed

lemma for_each_load_field:
  assumes "for_each (load_field domains) ins l = Some (Inr l')"
  shows "\<exists>new. l' = adds field_name field_id l new \<and> items l' = items l @ new \<and>
           map field_id new = map (\<lambda>(i, f_nd). int i) ins"
  using assms
proof (induction ins arbitrary: l)
  case Nil
  then have "l' = l" by (simp add: returns_def)
  then show ?case by (intro exI [of _ "[]"]) simp
next
  case (Cons p ins)
  obtain i f_nd where p: "p = (i, f_nd)" by (cases p)
  from Cons.prems obtain l1 where l1: "load_field domains (i, f_nd) l = Some (Inr l1)"
    and rest: "for_each (load_field domains) ins l1 = Some (Inr l')"
    by (auto simp: p and_then_Inr)
  from load_field_Inr [OF l1] obtain f where f: "field_id f = int i"
    and a: "add_or_raise field_name field_id l f = Inr l1" by blast
  from Cons.IH [OF rest] obtain new where new: "l' = adds field_name field_id l1 new"
    "items l' = items l1 @ new" "map field_id new = map (\<lambda>(i, f_nd). int i) ins" by blast
  note a' = add_or_raise_Inr [OF a]
  have "l' = adds field_name field_id l (f # new)" using new(1) a'(1) by simp
  moreover have "items l' = items l @ f # new" using new(2) a'(2) by simp
  moreover have "map field_id (f # new) = map (\<lambda>(i, f_nd). int i) (p # ins)"
    using new(3) f p by simp
  ultimately show ?case by blast
qed

text \<open>
  C7, as amended. \<open>load_fields\<close> is what \<open>load\<close> calls for the fields of a class
  or method node, of the primary document and of an overlay alike, on the field
  container the class or method has so far. Where it returns, the container holds the
  fields it held before, each at the position it had, followed by the new fields in
  document order: a new field goes to the end, whatever its declared index (its
  \<open>field_id\<close>, the position of its node among the children of the class or method
  node).
\<close>

theorem load_fields_appends:
  assumes l: "l = adds field_name field_id SpecContainer xs"
    and r: "load_fields nd l domains = Some (Inr l')"
  shows "\<exists>new. items l' = items l @ new \<and>
      map field_id new = map (\<lambda>(i, f_nd). int i) (field_nodes nd) \<and>
      (\<forall>i < length (items l). index l' (items l ! i) = Inr i) \<and>
      (\<forall>j < length new. index l' (new ! j) = Inr (length (items l) + j))"
proof -
  from r have "for_each (load_field domains) (field_nodes nd) l = Some (Inr l')"
    by (simp add: load_fields_def)
  from for_each_load_field [OF this] obtain new where new: "l' = adds field_name field_id l new"
    "items l' = items l @ new" "map field_id new = map (\<lambda>(i, f_nd). int i) (field_nodes nd)"
    by blast
  from new(1) l have "l' = adds field_name field_id SpecContainer (xs @ new)"
    by (simp add: adds_append)
  then have inv: "registry_inv field_name field_id l'" by (simp add: reachable_inv)
  have old: "index l' (items l ! i) = Inr i" if "i < length (items l)" for i
    using inv_index [OF inv, of i] that new(2) by (simp add: nth_append)
  have nw: "index l' (new ! j) = Inr (length (items l) + j)" if "j < length new" for j
    using inv_index [OF inv, of "length (items l) + j"] that new(2) by (simp add: nth_append)
  from new(2,3) old nw show ?thesis by blast
qed

theorem load_fields_appends_witness:
  "load_fields errata_field_method
     (adds field_name field_id SpecContainer
        [\<lparr>field_name = ''reserved'', field_id = 1, field_type = ''short'', field_docs = []\<rparr>,
         \<lparr>field_name = ''exchange'', field_id = 2, field_type = ''shortstr'', field_docs = []\<rparr>])
     Map.empty
   = Some (Inr (adds field_name field_id SpecContainer
        [\<lparr>field_name = ''reserved'', field_id = 1, field_type = ''short'', field_docs = []\<rparr>,
         \<lparr>field_name = ''exchange'', field_id = 2, field_type = ''shortstr'', field_docs = []\<rparr>,
         \<lparr>field_name = ''routing_key'', field_id = 0, field_type = ''shortstr'', field_docs = []\<rparr>])) \<and>
   index (adds field_name field_id SpecContainer
        [\<lparr>field_name = ''reserved'', field_id = 1, field_type = ''short'', field_docs = []\<rparr>,
         \<lparr>field_name = ''exchange'', field_id = 2, field_type = ''shortstr'', field_docs = []\<rparr>,
         \<lparr>field_name = ''routing_key'', field_id = 0, field_type = ''shortstr'', field_docs = []\<rparr>])
      \<lparr>field_name = ''routing_key'', field_id = 0, field_type = ''shortstr'', field_docs = []\<rparr>
   = Inr 2"
proof -
  let ?r = "\<lparr>field_name = ''reserved'', field_id = 1, field_type = ''short'', field_docs = []\<rparr>"
  let ?e = "\<lparr>field_name = ''exchange'', field_id = 2, field_type = ''shortstr'', field_docs = []\<rparr>"
  let ?k = "\<lparr>field_name = ''routing_key'', field_id = 0, field_type = ''shortstr'', field_docs = []\<rparr>"
  let ?l = "adds field_name field_id SpecContainer [?r, ?e]"
  let ?l' = "adds field_name field_id SpecContainer [?r, ?e, ?k]"
  have ld: "load_fields errata_field_method ?l Map.empty = Some (Inr ?l')"
    by (simp add: eval_defs errata_field_method_def)
  have il: "items ?l = [?r, ?e]" and il': "items ?l' = [?r, ?e, ?k]"
    by (simp_all add: add_def has_key_def SpecContainer_def)
  from load_fields_appends [OF refl ld] obtain new where new: "items ?l' = items ?l @ new"
    and idx: "\<forall>j < length new. index ?l' (new ! j) = Inr (length (items ?l) + j)"
    by blast
  from new have n: "new = [?k]" unfolding il il' by simp
  from idx have "index ?l' (new ! 0) = Inr (length (items ?l) + 0)" unfolding n by simp
  then have "index ?l' ?k = Inr 2" unfolding n il by simp
  with ld show ?thesis by blast
qed

text \<open>
  C7 as stated fails: the overlay declares \<open>routing-key\<close> as the first child of
  \<open>publish\<close>, declared index 0, and the field ends up at position 2, after the two
  fields of the primary document.
\<close>

theorem load_fields_counterexample:
  "(case load no_post_load ''amqp.xml'' primary_doc [errata_field_doc] of
      Some (Inr st) \<Rightarrow>
        map (\<lambda>f. (field_name f, field_id f)) (items (method_fields (method_at st 0)))
          = [(''reserved'', 1), (''exchange'', 2), (''routing_key'', 0)] \<and>
        index (method_fields (method_at st 0)) (items (method_fields (method_at st 0)) ! 2) = Inr 2
    | _ \<Rightarrow> False)"
  by (simp add: load_def eval_defs doc_defs index_def)


section \<open>Overlays and redeclaration\<close>

lemma klass_at_set_klass:
  "klass_at (set_klass k f st) j =
     (if j = k \<and> k < length (class_objs st) then f (klass_at st k) else klass_at st j)"
  by (cases "k < length (class_objs st)")
     (auto simp: klass_at_def set_klass_def nth_list_update list_update_beyond)

lemma method_at_set_method:
  "method_at (set_method a f st) b =
     (if b = a \<and> a < length (method_objs st) then f (method_at st a) else method_at st b)"
  by (cases "a < length (method_objs st)")
     (auto simp: method_at_def set_method_def nth_list_update list_update_beyond)

lemma set_klass_frame:
  "method_objs (set_klass k f st) = method_objs st"
  "spec (set_klass k f st) = spec st"
  "length (class_objs (set_klass k f st)) = length (class_objs st)"
  "method_at (set_klass k f st) a = method_at st a"
  by (simp_all add: set_klass_def method_at_def)

lemma set_method_frame:
  "class_objs (set_method a f st) = class_objs st"
  "spec (set_method a f st) = spec st"
  "length (method_objs (set_method a f st)) = length (method_objs st)"
  "klass_at (set_method a f st) k = klass_at st k"
  by (simp_all add: set_method_def klass_at_def)

lemma fields_added_refl: "fields_added c c"
  by (simp add: fields_added_def)

lemma fields_added_trans: "fields_added c c' \<Longrightarrow> fields_added c' c'' \<Longrightarrow> fields_added c c''"
  by (auto simp: fields_added_def)

lemma only_fields_added_refl: "only_fields_added st st"
  by (simp add: only_fields_added_def fields_added_refl)

lemma only_fields_added_trans:
  assumes "only_fields_added st st'" and "only_fields_added st' st''"
  shows "only_fields_added st st''"
  unfolding only_fields_added_def
proof (intro conjI allI impI)
  show "spec st'' = spec st" using assms by (simp add: only_fields_added_def)
  show "length (class_objs st'') = length (class_objs st)"
    using assms by (simp add: only_fields_added_def)
  show "length (method_objs st'') = length (method_objs st)"
    using assms by (simp add: only_fields_added_def)
next
  fix k assume k: "k < length (class_objs st)"
  with assms have k': "k < length (class_objs st')" by (simp add: only_fields_added_def)
  from assms(1) k have 1: "klass_at st' k = (klass_at st k)\<lparr>class_fields := class_fields (klass_at st' k)\<rparr>"
    and 2: "fields_added (class_fields (klass_at st k)) (class_fields (klass_at st' k))"
    by (simp_all add: only_fields_added_def)
  from assms(2) k' have 3: "klass_at st'' k = (klass_at st' k)\<lparr>class_fields := class_fields (klass_at st'' k)\<rparr>"
    and 4: "fields_added (class_fields (klass_at st' k)) (class_fields (klass_at st'' k))"
    by (simp_all add: only_fields_added_def)
  show "klass_at st'' k = (klass_at st k)\<lparr>class_fields := class_fields (klass_at st'' k)\<rparr>"
    by (subst 3, subst 1) simp
  show "fields_added (class_fields (klass_at st k)) (class_fields (klass_at st'' k))"
    using 2 4 by (rule fields_added_trans)
next
  fix a assume a: "a < length (method_objs st)"
  with assms have a': "a < length (method_objs st')" by (simp add: only_fields_added_def)
  from assms(1) a have 1: "method_at st' a = (method_at st a)\<lparr>method_fields := method_fields (method_at st' a)\<rparr>"
    and 2: "fields_added (method_fields (method_at st a)) (method_fields (method_at st' a))"
    by (simp_all add: only_fields_added_def)
  from assms(2) a' have 3: "method_at st'' a = (method_at st' a)\<lparr>method_fields := method_fields (method_at st'' a)\<rparr>"
    and 4: "fields_added (method_fields (method_at st' a)) (method_fields (method_at st'' a))"
    by (simp_all add: only_fields_added_def)
  show "method_at st'' a = (method_at st a)\<lparr>method_fields := method_fields (method_at st'' a)\<rparr>"
    by (subst 3, subst 1) simp
  show "fields_added (method_fields (method_at st a)) (method_fields (method_at st'' a))"
    using 2 4 by (rule fields_added_trans)
qed

lemma load_fields_added:
  assumes "load_fields nd l domains = Some (Inr l')"
  shows "fields_added l l'"
proof -
  from assms have "for_each (load_field domains) (field_nodes nd) l = Some (Inr l')"
    by (simp add: load_fields_def)
  from for_each_load_field [OF this] show ?thesis by (auto simp: fields_added_def)
qed

lemma set_klass_fields_added:
  assumes "fields_added (class_fields (klass_at st k)) l"
  shows "only_fields_added st (set_klass k (\<lambda>c. c\<lparr>class_fields := l\<rparr>) st)"
  using assms
  by (auto simp: only_fields_added_def set_klass_frame klass_at_set_klass fields_added_refl)

lemma set_method_fields_added:
  assumes "fields_added (method_fields (method_at st a)) l"
  shows "only_fields_added st (set_method a (\<lambda>m. m\<lparr>method_fields := l\<rparr>) st)"
  using assms
  by (auto simp: only_fields_added_def set_method_frame method_at_set_method fields_added_refl)

lemma load_method_overlay:
  assumes "load_method False domains k m_nd (st, added) = Some (Inr (st', added'))"
  shows "only_fields_added st st' \<and> added' = added"
proof -
  from assms obtain a where g: "get_method False k m_nd (st, added) = Inr ((st, added), a)"
    by (auto simp: load_method_def get_method_def raises_def Let_def split: sum.splits)
  with assms obtain l where l: "load_fields m_nd (method_fields (method_at st a)) domains = Some (Inr l)"
    and r: "st' = set_method a (\<lambda>m. m\<lparr>method_fields := l\<rparr>) st" "added' = added"
    by (auto simp: load_method_def and_then_Inr returns_def)
  from load_fields_added [OF l] r show ?thesis by (simp add: set_method_fields_added)
qed

lemma for_each_load_method_overlay:
  assumes "for_each (load_method False domains k) ms (st, added) = Some (Inr (st', added'))"
  shows "only_fields_added st st' \<and> added' = added"
  using assms
proof (induction ms arbitrary: st)
  case Nil
  then show ?case by (simp add: returns_def only_fields_added_refl)
next
  case (Cons m ms)
  from Cons.prems obtain s1 where s1: "load_method False domains k m (st, added) = Some (Inr s1)"
    and rest: "for_each (load_method False domains k) ms s1 = Some (Inr (st', added'))"
    by (auto simp: and_then_Inr)
  obtain st1 added1 where s: "s1 = (st1, added1)" by (cases s1)
  from load_method_overlay [OF s1 [unfolded s]] have 1: "only_fields_added st st1" "added1 = added"
    by simp_all
  from Cons.IH [OF rest [unfolded s 1(2)]] have "only_fields_added st1 st'" "added' = added"
    by simp_all
  with 1 show ?case by (auto intro: only_fields_added_trans)
qed

lemma load_class_overlay:
  assumes "load_class False domains c_nd st = Some (Inr st')"
  shows "only_fields_added st st'"
proof -
  from assms obtain k where g: "get_class False c_nd st = Inr (st, k)"
    by (auto simp: load_class_def get_class_def raises_def Let_def split: sum.splits)
  with assms obtain l st3 added where l: "load_fields c_nd (class_fields (klass_at st k)) domains = Some (Inr l)"
    and ms: "for_each (load_method False domains k) (children_named c_nd ''method'')
        (set_klass k (\<lambda>c. c\<lparr>class_fields := l\<rparr>) st, []) = Some (Inr (st3, added))"
    and rs: "for_each (resolve_responses k) added st3 = Some (Inr st')"
    by (auto simp: load_class_def and_then_Inr)
  from for_each_load_method_overlay [OF ms]
  have 2: "only_fields_added (set_klass k (\<lambda>c. c\<lparr>class_fields := l\<rparr>) st) st3" and "added = []"
    by simp_all
  with rs have "st' = st3" by (simp add: returns_def)
  with 2 set_klass_fields_added [OF load_fields_added [OF l]] show ?thesis
    by (auto intro: only_fields_added_trans)
qed

lemma load_class_overlay_unknown:
  assumes "attribute c_nd ''name'' = Inr n" and "byname (spec_classes (spec st)) (pythonize n) = None"
  shows "load_class False domains c_nd st = Some (Inl (KeyError (pythonize n)))"
  using assms by (simp add: load_class_def get_class_def lookup_def raises_def)

lemma load_method_overlay_unknown:
  assumes "attribute m_nd ''name'' = Inr n"
    and "byname (class_methods (klass_at st k)) (pythonize n) = None"
  shows "load_method False domains k m_nd (st, added) = Some (Inl (KeyError (pythonize n)))"
  using assms by (simp add: load_method_def get_method_def lookup_def raises_def)

lemma load_class_primary_duplicate:
  assumes "attribute c_nd ''name'' = Inr n" and "int_attribute c_nd ''index'' = Inr i"
    and "attribute c_nd ''handler'' = Inr h"
    and "has_key (byname (spec_classes (spec st))) (pythonize n)"
  shows "load_class True domains c_nd st = Some (Inl (DuplicateName (pythonize n)))"
  using assms
  by (simp add: load_class_def get_class_def raises_def Let_def add_or_raise_def add_def klass_at_def)

lemma new_method_name: "new_method k mname m_nd = Inr meth \<Longrightarrow> method_name meth = mname"
  by (auto simp: new_method_def split: sum.splits)

lemma load_method_primary_duplicate:
  assumes "attribute m_nd ''name'' = Inr n" and "new_method k (pythonize n) m_nd = Inr meth"
    and "has_key (byname (class_methods (klass_at st k))) (pythonize n)"
  shows "load_method True domains k m_nd (st, added) = Some (Inl (DuplicateName (pythonize n)))"
  using assms new_method_name [OF assms(2)]
  by (simp add: load_method_def get_method_def raises_def Let_def add_or_raise_def add_def
      klass_at_def method_at_def)

lemma load_constant_frame:
  assumes "load_constant nd st = Some (Inr st')"
  shows "\<exists>cs. st' = st\<lparr>spec := (spec st)\<lparr>spec_constants := cs\<rparr>\<rparr> \<and>
           (\<exists>new. items cs = items (spec_constants (spec st)) @ new)"
proof -
  from assms obtain c cs where
    a: "add_or_raise constant_name constant_id (spec_constants (spec st)) c = Inr cs"
    and st': "st' = st\<lparr>spec := (spec st)\<lparr>spec_constants := cs\<rparr>\<rparr>"
    by (auto simp: load_constant_def raises_def returns_def split: sum.splits)
  from add_or_raise_Inr(2) [OF a] st' show ?thesis by blast
qed

lemma for_each_load_constant_frame:
  assumes "for_each load_constant nds st = Some (Inr st')"
  shows "\<exists>cs. st' = st\<lparr>spec := (spec st)\<lparr>spec_constants := cs\<rparr>\<rparr> \<and>
           (\<exists>new. items cs = items (spec_constants (spec st)) @ new)"
  using assms
proof (induction nds arbitrary: st)
  case Nil
  then have "st' = st\<lparr>spec := (spec st)\<lparr>spec_constants := spec_constants (spec st)\<rparr>\<rparr>"
    by (simp add: returns_def)
  then show ?case by (metis append_Nil2)
next
  case (Cons nd nds)
  from Cons.prems obtain st1 where s1: "load_constant nd st = Some (Inr st1)"
    and rest: "for_each load_constant nds st1 = Some (Inr st')"
    by (auto simp: and_then_Inr)
  from load_constant_frame [OF s1] obtain cs1 new1 where
    1: "st1 = st\<lparr>spec := (spec st)\<lparr>spec_constants := cs1\<rparr>\<rparr>"
    "items cs1 = items (spec_constants (spec st)) @ new1" by blast
  from Cons.IH [OF rest] obtain cs new where
    2: "st' = st1\<lparr>spec := (spec st1)\<lparr>spec_constants := cs\<rparr>\<rparr>"
    "items cs = items (spec_constants (spec st1)) @ new" by blast
  from 1 2 have "st' = st\<lparr>spec := (spec st)\<lparr>spec_constants := cs\<rparr>\<rparr>" by simp
  moreover from 1 2 have "items cs = items (spec_constants (spec st)) @ (new1 @ new)" by simp
  ultimately show ?case by blast
qed

lemma for_each_load_class_overlay:
  assumes "for_each (load_class False domains) c_nds st = Some (Inr st')"
  shows "only_fields_added st st'"
  using assms
proof (induction c_nds arbitrary: st)
  case Nil
  then show ?case by (simp add: returns_def only_fields_added_refl)
next
  case (Cons c_nd c_nds)
  from Cons.prems obtain st1 where s1: "load_class False domains c_nd st = Some (Inr st1)"
    and rest: "for_each (load_class False domains) c_nds st1 = Some (Inr st')"
    by (auto simp: and_then_Inr)
  from load_class_overlay [OF s1] Cons.IH [OF rest] show ?case
    by (rule only_fields_added_trans)
qed

lemma load_root_overlay:
  assumes "load_root (False, root) st = Some (Inr st')"
  shows "only_fields_and_constants_added st st'"
proof -
  from assms obtain st1 where
    c: "for_each load_constant (children_named root ''constant'') st = Some (Inr st1)"
    and d: "(case load_domains (children_named root ''domain'') Map.empty of
               Inl e \<Rightarrow> raises e
             | Inr domains \<Rightarrow>
                 for_each (load_class False domains) (children_named root ''class'') st1)
            = Some (Inr st')"
    by (auto simp: load_root_def and_then_Inr)
  from d obtain domains where
    k: "for_each (load_class False domains) (children_named root ''class'') st1 = Some (Inr st')"
    by (cases "load_domains (children_named root ''domain'') Map.empty")
       (simp_all add: raises_def)
  from for_each_load_constant_frame [OF c] obtain cs new where
    st1: "st1 = st\<lparr>spec := (spec st)\<lparr>spec_constants := cs\<rparr>\<rparr>"
    and new: "items cs = items (spec_constants (spec st)) @ new" by blast
  note o = for_each_load_class_overlay [OF k]
  then have "spec st' = spec st1" by (simp add: only_fields_added_def)
  with st1 have cs: "spec_constants (spec st') = cs" by simp
  from o show ?thesis
    unfolding only_fields_and_constants_added_def cs using new st1 by auto
qed

text \<open>
  C6, as amended. In an overlay a \<open>class\<close> or \<open>method\<close> tag is looked up by
  name and never registered: a class name that \<open>spec.classes\<close> lacks and a method
  name that the method registry of the class lacks raise \<open>KeyError\<close>. A class step
  of an overlay that returns has changed nothing but field containers, to which it has
  added fields; and the step for a whole overlay document, where it returns, has added
  constants to \<open>spec.constants\<close> and fields to field containers and has changed
  nothing else: the \<open>Spec\<close> but for its constants, the class registry, the Class
  and Method objects and their method registries are as before. In the primary document
  a class whose name is registered already, and a method whose name is registered
  already in its class, raise the duplicate-name error.
\<close>

theorem overlay_and_redeclaration:
  "(attribute c_nd ''name'' = Inr n \<and> byname (spec_classes (spec st)) (pythonize n) = None \<longrightarrow>
      load_class False domains c_nd st = Some (Inl (KeyError (pythonize n)))) \<and>
   (attribute m_nd ''name'' = Inr n' \<and>
    byname (class_methods (klass_at st k)) (pythonize n') = None \<longrightarrow>
      load_method False domains k m_nd (st, added) = Some (Inl (KeyError (pythonize n')))) \<and>
   (attribute c_nd ''name'' = Inr n \<and> int_attribute c_nd ''index'' = Inr i \<and>
    attribute c_nd ''handler'' = Inr h \<and>
    has_key (byname (spec_classes (spec st))) (pythonize n) \<longrightarrow>
      load_class True domains c_nd st = Some (Inl (DuplicateName (pythonize n)))) \<and>
   (attribute m_nd ''name'' = Inr n' \<and> new_method k (pythonize n') m_nd = Inr meth \<and>
    has_key (byname (class_methods (klass_at st k))) (pythonize n') \<longrightarrow>
      load_method True domains k m_nd (st, added) = Some (Inl (DuplicateName (pythonize n')))) \<and>
   (load_class False domains c_nd st = Some (Inr st') \<longrightarrow> only_fields_added st st') \<and>
   (load_root (False, root) st = Some (Inr st') \<longrightarrow> only_fields_and_constants_added st st')"
  using load_class_overlay_unknown [of c_nd n st domains]
    load_method_overlay_unknown [of m_nd n' st k domains added]
    load_class_primary_duplicate [of c_nd n i h st domains]
    load_method_primary_duplicate [of m_nd n' k meth st domains added]
    load_class_overlay [of domains c_nd st st']
    load_root_overlay [of root st st']
  by blast

theorem overlay_and_redeclaration_witness:
  "\<exists>st st' st2.
     load_root (False, errata_constant_root) st = Some (Inr st2) \<and>
     only_fields_and_constants_added st st2 \<and>
     items (spec_constants (spec st)) = [] \<and>
     map constant_name (items (spec_constants (spec st2))) = [''frame_foo''] \<and>
     for_each load_root [(True, primary_root)] (initial_store 0 8 ''amqp.xml'') = Some (Inr st) \<and>
     load_class False Map.empty errata_field_class st = Some (Inr st') \<and>
     only_fields_added st st' \<and>
     byname (class_methods (klass_at st 0)) (pythonize ''get'') = None \<and>
     load_method False Map.empty 0 errata_method_method (st, []) = Some (Inl (KeyError ''get'')) \<and>
     byname (spec_classes (spec st)) (pythonize ''queue'') = None \<and>
     load_class False Map.empty errata_class_class st = Some (Inl (KeyError ''queue'')) \<and>
     has_key (byname (spec_classes (spec st))) (pythonize ''basic'') \<and>
     load_class True Map.empty primary_class st = Some (Inl (DuplicateName ''basic'')) \<and>
     has_key (byname (class_methods (klass_at st 0))) (pythonize ''publish'') \<and>
     load_method True Map.empty 0 primary_publish (st, []) = Some (Inl (DuplicateName ''publish''))"
proof -
  have "\<exists>st. for_each load_root [(True, primary_root)] (initial_store 0 8 ''amqp.xml'') = Some (Inr st) \<and>
     (\<exists>st'. load_class False Map.empty errata_field_class st = Some (Inr st')) \<and>
     (\<exists>st2. load_root (False, errata_constant_root) st = Some (Inr st2) \<and>
        map constant_name (items (spec_constants (spec st2))) = [''frame_foo'']) \<and>
     items (spec_constants (spec st)) = [] \<and>
     byname (class_methods (klass_at st 0)) (pythonize ''get'') = None \<and>
     byname (spec_classes (spec st)) (pythonize ''queue'') = None \<and>
     has_key (byname (spec_classes (spec st))) (pythonize ''basic'') \<and>
     has_key (byname (class_methods (klass_at st 0))) (pythonize ''publish'')"
    by (simp add: eval_defs doc_defs)
  then obtain st st' st2 where
    st: "for_each load_root [(True, primary_root)] (initial_store 0 8 ''amqp.xml'') = Some (Inr st)"
    and st': "load_class False Map.empty errata_field_class st = Some (Inr st')"
    and st2: "load_root (False, errata_constant_root) st = Some (Inr st2)"
    and c2: "map constant_name (items (spec_constants (spec st2))) = [''frame_foo'']"
    and c0: "items (spec_constants (spec st)) = []"
    and g: "byname (class_methods (klass_at st 0)) (pythonize ''get'') = None"
    and q: "byname (spec_classes (spec st)) (pythonize ''queue'') = None"
    and b: "has_key (byname (spec_classes (spec st))) (pythonize ''basic'')"
    and p: "has_key (byname (class_methods (klass_at st 0))) (pythonize ''publish'')"
    by (elim exE conjE) (rule that)
  have "\<exists>meth. new_method 0 (pythonize ''publish'') primary_publish = Inr meth"
    by (simp add: eval_defs doc_defs)
  then obtain meth where meth: "new_method 0 (pythonize ''publish'') primary_publish = Inr meth" ..
  have pn: "attribute primary_publish ''name'' = Inr ''publish''"
    by (simp add: eval_defs doc_defs)
  have an: "attribute errata_method_method ''name'' = Inr ''get''"
    "attribute errata_class_class ''name'' = Inr ''queue''"
    "attribute primary_class ''name'' = Inr ''basic''"
    "int_attribute primary_class ''index'' = Inr 60"
    "attribute primary_class ''handler'' = Inr ''channel''"
    by (simp_all add: eval_defs doc_defs)
  have py: "pythonize ''get'' = ''get''" "pythonize ''queue'' = ''queue''" "pythonize ''basic'' = ''basic''"
    "pythonize ''publish'' = ''publish''"
    by (simp_all add: pythonize_def KEYWORDS_def)
  from overlay_and_redeclaration [of errata_field_class _ st Map.empty _ _ _ _ _ _ _ st'] st'
  have 1: "only_fields_added st st'" by blast
  from overlay_and_redeclaration [of _ _ st Map.empty errata_method_method "''get''" 0 "[]"] an(1) g
  have 2: "load_method False Map.empty 0 errata_method_method (st, []) = Some (Inl (KeyError ''get''))"
    unfolding py by blast
  from overlay_and_redeclaration [of errata_class_class "''queue''" st Map.empty] an(2) q
  have 3: "load_class False Map.empty errata_class_class st = Some (Inl (KeyError ''queue''))"
    unfolding py by blast
  from overlay_and_redeclaration [of primary_class "''basic''" st Map.empty _ _ _ _ 60 "''channel''"] an(3,4,5) b
  have 4: "load_class True Map.empty primary_class st = Some (Inl (DuplicateName ''basic''))"
    unfolding py by blast
  note t5 = overlay_and_redeclaration [of _ _ st Map.empty primary_publish "''publish''" 0 "[]" _ _ meth,
      THEN conjunct2, THEN conjunct2, THEN conjunct2, THEN conjunct1, THEN mp]
  from pn meth p have "attribute primary_publish ''name'' = Inr ''publish'' \<and>
      new_method 0 (pythonize ''publish'') primary_publish = Inr meth \<and>
      has_key (byname (class_methods (klass_at st 0))) (pythonize ''publish'')" by simp
  from t5 [OF this]
  have 5: "load_method True Map.empty 0 primary_publish (st, []) = Some (Inl (DuplicateName ''publish''))"
    unfolding py .
  note t6 = overlay_and_redeclaration [of _ _ st Map.empty _ _ _ _ _ _ _ st2 errata_constant_root,
      THEN conjunct2, THEN conjunct2, THEN conjunct2, THEN conjunct2, THEN conjunct2, THEN mp, OF st2]
  from t6 have 6: "only_fields_and_constants_added st st2" .
  show ?thesis
    by (rule exI [of _ st], rule exI [of _ st'], rule exI [of _ st2]) (intro conjI; fact)
qed


text \<open>
  C6 as stated fails: an overlay that declares a new method for an existing class
  fails with \<open>KeyError\<close>, and an overlay that names an existing class and an existing
  method is loaded without error.
\<close>

theorem overlay_and_redeclaration_counterexample:
  "load no_post_load ''amqp.xml'' primary_doc [errata_method_doc] = Some (Inl (KeyError ''get'')) \<and>
   returned (load no_post_load ''amqp.xml'' primary_doc [errata_field_doc])"
  by (simp add: load_def eval_defs doc_defs returned_def)

section \<open>Resolution of responses\<close>

lemma add_or_raise_byname:
  assumes "add_or_raise nm idf c x = Inr c'"
  shows "byname c' = (byname c)(nm x \<mapsto> x)"
  using assms
  by (auto simp: add_or_raise_def add_def Let_def split: if_splits)

lemma new_method_facts:
  assumes "new_method k mname m_nd = Inr meth"
  shows "method_name meth = mname"
    and "\<exists>names. response_names m_nd = Inr names \<and> method_responses meth = map Name names"
  using assms by (auto simp: new_method_def split: sum.splits)

lemma get_method_primary_Inr:
  assumes "get_method True k m (st, added) = Inr ((stB, addedB), a)"
  shows "\<exists>nm meth ms'.
      attribute m ''name'' = Inr nm \<and> new_method k (pythonize nm) m = Inr meth \<and>
      a = length (method_objs st) \<and>
      add_or_raise (\<lambda>b. method_name (method_at (st\<lparr>method_objs := method_objs st @ [meth]\<rparr>) b))
        (\<lambda>b. method_id (method_at (st\<lparr>method_objs := method_objs st @ [meth]\<rparr>) b))
        (class_methods (klass_at st k)) a = Inr ms' \<and>
      stB = set_klass k (\<lambda>c. c\<lparr>class_methods := ms'\<rparr>) (st\<lparr>method_objs := method_objs st @ [meth]\<rparr>) \<and>
      addedB = added @ [a]"
  using assms
  by (auto simp: get_method_def Let_def klass_at_def split: sum.splits)

lemma registered_step:
  assumes reg: "registered a0 k nodes st added"
    and ld: "load_method True domains k m (st, added) = Some (Inr (st', added'))"
  shows "registered a0 k (nodes @ [m]) st' added'"
proof -
  from ld obtain stB addedB a l where
    g: "get_method True k m (st, added) = Inr ((stB, addedB), a)"
    and l: "load_fields m (method_fields (method_at stB a)) domains = Some (Inr l)"
    and st': "st' = set_method a (\<lambda>m. m\<lparr>method_fields := l\<rparr>) stB" and ad: "added' = addedB"
    by (auto simp: load_method_def raises_def and_then_Inr returns_def split: sum.splits)
  from get_method_primary_Inr [OF g] obtain nm meth ms' where
    nm: "attribute m ''name'' = Inr nm" and meth: "new_method k (pythonize nm) m = Inr meth"
    and a: "a = length (method_objs st)"
    and add: "add_or_raise (\<lambda>b. method_name (method_at (st\<lparr>method_objs := method_objs st @ [meth]\<rparr>) b))
        (\<lambda>b. method_id (method_at (st\<lparr>method_objs := method_objs st @ [meth]\<rparr>) b))
        (class_methods (klass_at st k)) a = Inr ms'"
    and stB: "stB = set_klass k (\<lambda>c. c\<lparr>class_methods := ms'\<rparr>) (st\<lparr>method_objs := method_objs st @ [meth]\<rparr>)"
    and adB: "addedB = added @ [a]"
    by blast
  note mf = new_method_facts [OF meth]
  from mf(2) obtain names where names: "response_names m = Inr names"
    "method_responses meth = map Name names" by blast
  from reg have k: "k < length (class_objs st)" and len: "length (method_objs st) = a0 + length nodes"
    and added: "added = [a0 ..< a0 + length nodes]"
    and its: "items (class_methods (klass_at st k)) = added"
    and old: "\<forall>i < length nodes. \<exists>nm names.
        attribute (nodes ! i) ''name'' = Inr nm \<and>
        method_name (method_at st (a0 + i)) = pythonize nm \<and>
        response_names (nodes ! i) = Inr names \<and>
        method_responses (method_at st (a0 + i)) = map Name names"
    and bn: "\<forall>n b. byname (class_methods (klass_at st k)) n = Some b \<longrightarrow>
        a0 \<le> b \<and> b < a0 + length nodes \<and> method_name (method_at st b) = n"
    by (simp_all add: registered_def)
  have a': "a = a0 + length nodes" using a len by simp
  have mobjs: "method_objs st' = (method_objs st @ [meth])[a := meth\<lparr>method_fields := l\<rparr>]"
    by (simp add: st' stB set_method_def set_klass_def a)
  have at_new: "method_at st' a = meth\<lparr>method_fields := l\<rparr>"
    by (simp add: method_at_def mobjs a)
  have at_old: "method_at st' b = method_at st b" if "b < a" for b
    using that by (simp add: method_at_def mobjs a nth_append)
  have kl: "klass_at st' k = (klass_at st k)\<lparr>class_methods := ms'\<rparr>"
    using k by (simp add: st' stB set_method_frame klass_at_set_klass) (simp add: klass_at_def)
  have name_a: "method_name (method_at (st\<lparr>method_objs := method_objs st @ [meth]\<rparr>) a) = pythonize nm"
    by (simp add: method_at_def a mf(1))
  note ar = add_or_raise_Inr [OF add] add_or_raise_byname [OF add]
  have bn': "byname ms' = (byname (class_methods (klass_at st k)))(pythonize nm \<mapsto> a)"
    using ar(5) name_a by simp
  show ?thesis
    unfolding registered_def
  proof (intro conjI allI impI)
    show "k < length (class_objs st')" using k by (simp add: st' stB set_method_frame set_klass_frame)
    show "length (method_objs st') = a0 + length (nodes @ [m])" using len by (simp add: mobjs)
    show "added' = [a0 ..< a0 + length (nodes @ [m])]" using added a' by (simp add: ad adB)
    show "items (class_methods (klass_at st' k)) = added'"
      using ar(2) its by (simp add: kl ad adB)
  next
    fix i assume i: "i < length (nodes @ [m])"
    show "\<exists>nm names. attribute ((nodes @ [m]) ! i) ''name'' = Inr nm \<and>
        method_name (method_at st' (a0 + i)) = pythonize nm \<and>
        response_names ((nodes @ [m]) ! i) = Inr names \<and>
        method_responses (method_at st' (a0 + i)) = map Name names"
    proof (cases "i < length nodes")
      case True
      then have "a0 + i < a" using a' by simp
      with old True show ?thesis by (simp add: at_old nth_append)
    next
      case False
      with i have "i = length nodes" by simp
      then show ?thesis
        using nm names mf(1) at_new by (simp add: a' nth_append)
    qed
  next
    fix n b assume b: "byname (class_methods (klass_at st' k)) n = Some b"
    show "a0 \<le> b" "b < a0 + length (nodes @ [m])" "method_name (method_at st' b) = n"
    proof -
      have "a0 \<le> b \<and> b < a0 + length (nodes @ [m]) \<and> method_name (method_at st' b) = n"
      proof (cases "n = pythonize nm")
        case True
        with b have "b = a" by (simp add: kl bn')
        with True at_new mf(1) a' show ?thesis by simp
      next
        case False
        with b have "byname (class_methods (klass_at st k)) n = Some b" by (simp add: kl bn')
        with bn have "a0 \<le> b \<and> b < a0 + length nodes \<and> method_name (method_at st b) = n" by blast
        then show ?thesis using a' by (simp add: at_old)
      qed
      then show "a0 \<le> b" "b < a0 + length (nodes @ [m])" "method_name (method_at st' b) = n"
        by simp_all
    qed
  qed
qed

lemma registered_loop:
  assumes "registered a0 k nodes st added"
    and "for_each (load_method True domains k) ms (st, added) = Some (Inr (st', added'))"
  shows "registered a0 k (nodes @ ms) st' added'"
  using assms
proof (induction ms arbitrary: nodes st added)
  case Nil
  then show ?case by (simp add: returns_def)
next
  case (Cons m ms)
  from Cons.prems(2) obtain s1 where s1: "load_method True domains k m (st, added) = Some (Inr s1)"
    and rest: "for_each (load_method True domains k) ms s1 = Some (Inr (st', added'))"
    by (auto simp: and_then_Inr)
  obtain st1 added1 where s: "s1 = (st1, added1)" by (cases s1)
  from registered_step [OF Cons.prems(1) s1 [unfolded s]]
  have "registered a0 k (nodes @ [m]) st1 added1" .
  from Cons.IH [OF this rest [unfolded s]] show ?case by simp
qed

lemma comprehension_Inr:
  "comprehension f xs = Inr ys \<Longrightarrow> list_all2 (\<lambda>x y. f x = Inr y) xs ys"
proof (induction xs arbitrary: ys)
  case Nil
  then show ?case by simp
next
  case (Cons x xs)
  then show ?case by (auto split: sum.splits)
qed

lemma comprehension_Inl:
  "comprehension f xs = Inl e \<Longrightarrow> \<exists>x \<in> set xs. f x = Inl e"
proof (induction xs)
  case Nil
  then show ?case by simp
next
  case (Cons x xs)
  then show ?case by (auto split: sum.splits)
qed

lemma comprehension_fails:
  "x \<in> set xs \<Longrightarrow> f x = Inl e \<Longrightarrow> \<exists>e'. comprehension f xs = Inl e'"
proof (induction xs)
  case Nil
  then show ?case by simp
next
  case (Cons y xs)
  then show ?case by (auto split: sum.splits)
qed

lemma resolve_names:
  assumes "comprehension (resolve_response st k) (map Name names) = Inr refs"
  shows "refs = map (\<lambda>n. the (byname (class_methods (klass_at st k)) n)) names"
    and "\<forall>n \<in> set names. byname (class_methods (klass_at st k)) n \<noteq> None"
proof -
  from comprehension_Inr [OF assms]
  have la: "list_all2 (\<lambda>x y. resolve_response st k x = Inr y) (map Name names) refs" .
  then have len: "length refs = length names" by (auto dest: list_all2_lengthD)
  have each: "byname (class_methods (klass_at st k)) (names ! i) = Some (refs ! i)"
    if "i < length names" for i
  proof -
    from la that have "resolve_response st k (map Name names ! i) = Inr (refs ! i)"
      by (simp add: list_all2_conv_all_nth)
    with that show ?thesis
      by (auto simp: resolve_response_def lookup_def split: option.splits)
  qed
  show "refs = map (\<lambda>n. the (byname (class_methods (klass_at st k)) n)) names"
    by (rule nth_equalityI) (simp_all add: len each)
  show "\<forall>n \<in> set names. byname (class_methods (klass_at st k)) n \<noteq> None"
    using each by (metis in_set_conv_nth option.distinct(1))
qed

lemma resolve_names_cong:
  assumes "klass_at st1 k = klass_at st k"
  shows "comprehension (resolve_response st1 k) (map Name names)
       = comprehension (resolve_response st k) (map Name names)"
  using assms by (induction names) (auto simp: resolve_response_def split: sum.splits)

lemma mark_response_frame:
  "class_objs (mark_response r s) = class_objs s"
  "length (method_objs (mark_response r s)) = length (method_objs s)"
  by (simp_all add: mark_response_def set_method_frame)

lemma fold_mark_response_frame:
  "class_objs (fold mark_response refs s) = class_objs s \<and>
   length (method_objs (fold mark_response refs s)) = length (method_objs s)"
  by (induction refs arbitrary: s) (simp_all add: mark_response_frame)

lemma fold_mark_response_at:
  assumes "b < length (method_objs s)"
  shows "method_name (method_at (fold mark_response refs s) b) = method_name (method_at s b) \<and>
     method_responses (method_at (fold mark_response refs s) b) = method_responses (method_at s b) \<and>
     method_response (method_at (fold mark_response refs s) b)
       = (method_response (method_at s b) \<or> b \<in> set refs)"
  using assms
proof (induction refs arbitrary: s)
  case Nil
  then show ?case by simp
next
  case (Cons r refs)
  from Cons.prems have b: "b < length (method_objs (mark_response r s))"
    by (simp add: mark_response_frame)
  from Cons.IH [OF b] Cons.prems show ?case
    by (auto simp: mark_response_def method_at_set_method)
qed

lemma resolve_responses_Inr:
  assumes r: "resolve_responses k m st = Some (Inr st1)"
    and raw: "method_responses (method_at st m) = map Name names"
    and m: "m < length (method_objs st)"
  shows "class_objs st1 = class_objs st"
    and "length (method_objs st1) = length (method_objs st)"
    and "\<forall>n \<in> set names. byname (class_methods (klass_at st k)) n \<noteq> None"
    and "\<forall>b < length (method_objs st).
       method_name (method_at st1 b) = method_name (method_at st b) \<and>
       method_responses (method_at st1 b) =
         (if b = m then map (\<lambda>n. Ref (the (byname (class_methods (klass_at st k)) n))) names
          else method_responses (method_at st b)) \<and>
       method_response (method_at st1 b) =
         (method_response (method_at st b) \<or>
          b \<in> (\<lambda>n. the (byname (class_methods (klass_at st k)) n)) ` set names)"
proof -
  from r raw obtain refs where
    c: "comprehension (resolve_response st k) (map Name names) = Inr refs"
    and st1: "st1 = fold mark_response refs
                 (set_method m (\<lambda>m. m\<lparr>method_responses := map Ref refs\<rparr>) st)"
    by (auto simp: resolve_responses_def raises_def returns_def split: sum.splits)
  note rn = resolve_names [OF c]
  let ?s = "set_method m (\<lambda>m. m\<lparr>method_responses := map Ref refs\<rparr>) st"
  show "class_objs st1 = class_objs st"
    by (simp add: st1 fold_mark_response_frame set_method_frame)
  show "length (method_objs st1) = length (method_objs st)"
    by (simp add: st1 fold_mark_response_frame set_method_frame)
  show "\<forall>n \<in> set names. byname (class_methods (klass_at st k)) n \<noteq> None" by (rule rn(2))
  show "\<forall>b < length (method_objs st).
       method_name (method_at st1 b) = method_name (method_at st b) \<and>
       method_responses (method_at st1 b) =
         (if b = m then map (\<lambda>n. Ref (the (byname (class_methods (klass_at st k)) n))) names
          else method_responses (method_at st b)) \<and>
       method_response (method_at st1 b) =
         (method_response (method_at st b) \<or>
          b \<in> (\<lambda>n. the (byname (class_methods (klass_at st k)) n)) ` set names)"
  proof (intro allI impI)
    fix b assume b: "b < length (method_objs st)"
    then have b': "b < length (method_objs ?s)" by (simp add: set_method_frame)
    have sr: "set refs = (\<lambda>n. the (byname (class_methods (klass_at st k)) n)) ` set names"
      by (simp add: rn(1))
    from fold_mark_response_at [OF b', of refs] m
    show "method_name (method_at st1 b) = method_name (method_at st b) \<and>
       method_responses (method_at st1 b) =
         (if b = m then map (\<lambda>n. Ref (the (byname (class_methods (klass_at st k)) n))) names
          else method_responses (method_at st b)) \<and>
       method_response (method_at st1 b) =
         (method_response (method_at st b) \<or>
          b \<in> (\<lambda>n. the (byname (class_methods (klass_at st k)) n)) ` set names)"
      unfolding st1 sr [symmetric]
      by (simp add: method_at_set_method rn(1))
  qed
qed

lemma klass_at_cong: "class_objs st1 = class_objs st \<Longrightarrow> klass_at st1 k = klass_at st k"
  by (simp add: klass_at_def)

lemma resolve_loop:
  assumes "distinct rest" and "\<forall>m \<in> set rest. m < length (method_objs st)"
    and "\<forall>m \<in> set rest. \<exists>names. method_responses (method_at st m) = map Name names"
    and "for_each (resolve_responses k) rest st = Some (Inr st')"
  shows "class_objs st' = class_objs st \<and> length (method_objs st') = length (method_objs st) \<and>
     (\<forall>b < length (method_objs st).
        method_name (method_at st' b) = method_name (method_at st b) \<and>
        (method_response (method_at st b) \<longrightarrow> method_response (method_at st' b)) \<and>
        (b \<notin> set rest \<longrightarrow> method_responses (method_at st' b) = method_responses (method_at st b))) \<and>
     (\<forall>m \<in> set rest. \<forall>names. method_responses (method_at st m) = map Name names \<longrightarrow>
        (\<forall>n \<in> set names. byname (class_methods (klass_at st k)) n \<noteq> None) \<and>
        method_responses (method_at st' m)
          = map (\<lambda>n. Ref (the (byname (class_methods (klass_at st k)) n))) names \<and>
        (\<forall>n \<in> set names. the (byname (class_methods (klass_at st k)) n) < length (method_objs st) \<longrightarrow>
           method_response (method_at st' (the (byname (class_methods (klass_at st k)) n)))))"
  using assms
proof (induction rest arbitrary: st)
  case Nil
  then show ?case by (simp add: returns_def)
next
  case (Cons m rest)
  let ?mc = "class_methods (klass_at st k)"
  from Cons.prems(4) obtain st1 where r1: "resolve_responses k m st = Some (Inr st1)"
    and rest: "for_each (resolve_responses k) rest st1 = Some (Inr st')"
    by (auto simp: and_then_Inr)
  from Cons.prems(2) have m: "m < length (method_objs st)" by simp
  from Cons.prems(3) obtain names where raw: "method_responses (method_at st m) = map Name names"
    by auto
  note s1 = resolve_responses_Inr [OF r1 raw m]
  have kl: "klass_at st1 k = klass_at st k" using s1(1) by (rule klass_at_cong)
  from Cons.prems(1) have d: "distinct rest" and mn: "m \<notin> set rest" by simp_all
  have b1: "\<forall>m' \<in> set rest. m' < length (method_objs st1)"
    using Cons.prems(2) s1(2) by simp
  have same: "method_responses (method_at st1 m') = method_responses (method_at st m')"
    if "m' \<in> set rest" for m'
  proof -
    from that mn have "m' \<noteq> m" by auto
    moreover from that Cons.prems(2) have "m' < length (method_objs st)" by simp
    ultimately show ?thesis using s1(4) by simp
  qed
  have raw1: "\<forall>m' \<in> set rest. \<exists>names. method_responses (method_at st1 m') = map Name names"
    using Cons.prems(3) same by simp
  note ih = Cons.IH [OF d b1 raw1 rest, unfolded kl s1(1) s1(2)]
  from ih have cl: "class_objs st' = class_objs st"
    and ln: "length (method_objs st') = length (method_objs st)" by simp_all
  from ih have fr: "\<forall>b < length (method_objs st).
        method_name (method_at st' b) = method_name (method_at st1 b) \<and>
        (method_response (method_at st1 b) \<longrightarrow> method_response (method_at st' b)) \<and>
        (b \<notin> set rest \<longrightarrow> method_responses (method_at st' b) = method_responses (method_at st1 b))"
    by blast
  from ih have rs: "\<forall>m' \<in> set rest. \<forall>names. method_responses (method_at st1 m') = map Name names \<longrightarrow>
        (\<forall>n \<in> set names. byname ?mc n \<noteq> None) \<and>
        method_responses (method_at st' m') = map (\<lambda>n. Ref (the (byname ?mc n))) names \<and>
        (\<forall>n \<in> set names. the (byname ?mc n) < length (method_objs st) \<longrightarrow>
           method_response (method_at st' (the (byname ?mc n))))"
    by blast
  have frame: "\<forall>b < length (method_objs st).
        method_name (method_at st' b) = method_name (method_at st b) \<and>
        (method_response (method_at st b) \<longrightarrow> method_response (method_at st' b)) \<and>
        (b \<notin> set (m # rest) \<longrightarrow> method_responses (method_at st' b) = method_responses (method_at st b))"
    using fr s1(4) by auto
  have each: "(\<forall>n \<in> set names'. byname ?mc n \<noteq> None) \<and>
        method_responses (method_at st' m') = map (\<lambda>n. Ref (the (byname ?mc n))) names' \<and>
        (\<forall>n \<in> set names'. the (byname ?mc n) < length (method_objs st) \<longrightarrow>
           method_response (method_at st' (the (byname ?mc n))))"
    if m': "m' \<in> set (m # rest)" and raw': "method_responses (method_at st m') = map Name names'"
    for m' names'
  proof (cases "m' = m")
    case True
    have "inj Name" by (simp add: inj_def)
    moreover from True raw raw' have "map Name names' = map Name names" by simp
    ultimately have nn: "names' = names" by (simp only: inj_map_eq_map)
    have 1: "\<forall>n \<in> set names. byname ?mc n \<noteq> None" by (rule s1(3))
    have 2: "method_responses (method_at st' m) = map (\<lambda>n. Ref (the (byname ?mc n))) names"
      using fr s1(4) m mn by simp
    have 3: "method_response (method_at st' (the (byname ?mc n)))"
      if "n \<in> set names" "the (byname ?mc n) < length (method_objs st)" for n
    proof -
      from that s1(4) have "method_response (method_at st1 (the (byname ?mc n)))" by simp
      with that(2) fr show ?thesis by simp
    qed
    from 1 2 3 show ?thesis unfolding True nn by blast
  next
    case False
    with m' have in_rest: "m' \<in> set rest" by simp
    from same [OF in_rest] raw' have "method_responses (method_at st1 m') = map Name names'" by simp
    with rs in_rest show ?thesis by blast
  qed
  from cl ln frame each show ?case by blast
qed

lemma get_class_primary_Inr:
  assumes "get_class True c_nd st = Inr (st1, k)"
  shows "k = length (class_objs st)" and "method_objs st1 = method_objs st"
    and "length (class_objs st1) = Suc k"
    and "class_methods (klass_at st1 k) = SpecContainer"
  using assms
  by (auto simp: get_class_def Let_def klass_at_def split: sum.splits)

lemma load_class_Inr:
  assumes "load_class primary domains c_nd st = Some (Inr st')"
  shows "\<exists>st1 k l st3 added.
     get_class primary c_nd st = Inr (st1, k) \<and>
     load_fields c_nd (class_fields (klass_at st1 k)) domains = Some (Inr l) \<and>
     for_each (load_method primary domains k) (children_named c_nd ''method'')
       (set_klass k (\<lambda>c. c\<lparr>class_fields := l\<rparr>) st1, []) = Some (Inr (st3, added)) \<and>
     for_each (resolve_responses k) added st3 = Some (Inr st')"
  using assms
  by (auto simp: load_class_def raises_def and_then_Inr split: sum.splits)

lemma registered_initial:
  assumes g: "get_class True c_nd st = Inr (st1, k)"
  shows "registered (length (method_objs st)) k [] (set_klass k (\<lambda>c. c\<lparr>class_fields := l\<rparr>) st1) []"
proof -
  note f = get_class_primary_Inr [OF g]
  have k: "k < length (class_objs st1)" using f(3) by simp
  have "class_methods (klass_at (set_klass k (\<lambda>c. c\<lparr>class_fields := l\<rparr>) st1) k) = SpecContainer"
    using k f(4) by (simp add: klass_at_set_klass)
  then show ?thesis
    using k f(2) by (simp add: registered_def set_klass_frame SpecContainer_def)
qed

lemma registered_after_methods:
  assumes g: "get_class True c_nd st = Inr (st1, k)"
    and ms: "for_each (load_method True domains k) m_nds
       (set_klass k (\<lambda>c. c\<lparr>class_fields := l\<rparr>) st1, []) = Some (Inr (st3, added))"
  shows "registered (length (method_objs st)) k m_nds st3 added"
  using registered_loop [OF registered_initial [OF g] ms] by simp

lemma registered_resolve_prems:
  assumes "registered a0 k nodes st added"
  shows "distinct added" and "\<forall>m \<in> set added. m < length (method_objs st)"
    and "\<forall>m \<in> set added. \<exists>names. method_responses (method_at st m) = map Name names"
proof -
  from assms have added: "added = [a0 ..< a0 + length nodes]"
    and len: "length (method_objs st) = a0 + length nodes"
    and raw: "\<forall>i < length nodes. \<exists>nm names.
        attribute (nodes ! i) ''name'' = Inr nm \<and>
        method_name (method_at st (a0 + i)) = pythonize nm \<and>
        response_names (nodes ! i) = Inr names \<and>
        method_responses (method_at st (a0 + i)) = map Name names"
    by (simp_all add: registered_def)
  show "distinct added" by (simp add: added)
  show "\<forall>m \<in> set added. m < length (method_objs st)" by (simp add: added len)
  show "\<forall>m \<in> set added. \<exists>names. method_responses (method_at st m) = map Name names"
  proof
    fix m assume "m \<in> set added"
    then have "a0 \<le> m" "m - a0 < length nodes" by (auto simp: added)
    with raw have "\<exists>nm names.
        attribute (nodes ! (m - a0)) ''name'' = Inr nm \<and>
        method_name (method_at st (a0 + (m - a0))) = pythonize nm \<and>
        response_names (nodes ! (m - a0)) = Inr names \<and>
        method_responses (method_at st (a0 + (m - a0))) = map Name names" by blast
    with \<open>a0 \<le> m\<close> show "\<exists>names. method_responses (method_at st m) = map Name names" by auto
  qed
qed

lemma load_class_responses:
  assumes ld: "load_class True domains c_nd st = Some (Inr st')"
    and k: "k = length (class_objs st)" and mc: "mc = class_methods (klass_at st' k)"
    and m_nds: "m_nds = children_named c_nd ''method''"
  shows "length (items mc) = length m_nds"
    and "\<forall>j < length m_nds. \<exists>nm names.
        attribute (m_nds ! j) ''name'' = Inr nm \<and>
        method_name (method_at st' (items mc ! j)) = pythonize nm \<and>
        response_names (m_nds ! j) = Inr names \<and>
        method_responses (method_at st' (items mc ! j)) = map (\<lambda>n. Ref (the (byname mc n))) names \<and>
        (\<forall>n \<in> set names. \<exists>b. byname mc n = Some b \<and> method_name (method_at st' b) = n \<and>
            method_response (method_at st' b))"
proof -
  from load_class_Inr [OF ld] obtain st1 k1 l st3 added where
    g: "get_class True c_nd st = Inr (st1, k1)"
    and ms: "for_each (load_method True domains k1) (children_named c_nd ''method'')
       (set_klass k1 (\<lambda>c. c\<lparr>class_fields := l\<rparr>) st1, []) = Some (Inr (st3, added))"
    and rs: "for_each (resolve_responses k1) added st3 = Some (Inr st')"
    by blast
  from get_class_primary_Inr(1) [OF g] k have k1: "k1 = k" by simp
  let ?a0 = "length (method_objs st)"
  note reg = registered_after_methods [OF g ms, folded m_nds, unfolded k1]
  note pre = registered_resolve_prems [OF reg]
  note rl = resolve_loop [OF pre rs [unfolded k1]]
  from reg have added: "added = [?a0 ..< ?a0 + length m_nds]"
    and len: "length (method_objs st3) = ?a0 + length m_nds"
    and its: "items (class_methods (klass_at st3 k)) = added"
    and raw: "\<forall>i < length m_nds. \<exists>nm names.
        attribute (m_nds ! i) ''name'' = Inr nm \<and>
        method_name (method_at st3 (?a0 + i)) = pythonize nm \<and>
        response_names (m_nds ! i) = Inr names \<and>
        method_responses (method_at st3 (?a0 + i)) = map Name names"
    and bn: "\<forall>n b. byname (class_methods (klass_at st3 k)) n = Some b \<longrightarrow>
        ?a0 \<le> b \<and> b < ?a0 + length m_nds \<and> method_name (method_at st3 b) = n"
    by (simp_all add: registered_def)
  from rl have cl: "class_objs st' = class_objs st3" by simp
  then have mc3: "mc = class_methods (klass_at st3 k)" by (simp add: mc klass_at_def)
  from rl have fr: "\<forall>b < length (method_objs st3).
        method_name (method_at st' b) = method_name (method_at st3 b) \<and>
        (method_response (method_at st3 b) \<longrightarrow> method_response (method_at st' b))"
    by blast
  from rl have res: "\<forall>m \<in> set added. \<forall>names. method_responses (method_at st3 m) = map Name names \<longrightarrow>
        (\<forall>n \<in> set names. byname mc n \<noteq> None) \<and>
        method_responses (method_at st' m) = map (\<lambda>n. Ref (the (byname mc n))) names \<and>
        (\<forall>n \<in> set names. the (byname mc n) < length (method_objs st3) \<longrightarrow>
           method_response (method_at st' (the (byname mc n))))"
    unfolding mc3 by blast
  show "length (items mc) = length m_nds" by (simp add: mc3 its added)
  show "\<forall>j < length m_nds. \<exists>nm names.
        attribute (m_nds ! j) ''name'' = Inr nm \<and>
        method_name (method_at st' (items mc ! j)) = pythonize nm \<and>
        response_names (m_nds ! j) = Inr names \<and>
        method_responses (method_at st' (items mc ! j)) = map (\<lambda>n. Ref (the (byname mc n))) names \<and>
        (\<forall>n \<in> set names. \<exists>b. byname mc n = Some b \<and> method_name (method_at st' b) = n \<and>
            method_response (method_at st' b))"
  proof (intro allI impI)
    fix j assume j: "j < length m_nds"
    then have ij: "items mc ! j = ?a0 + j" by (simp add: mc3 its added)
    from j have in_added: "?a0 + j \<in> set added" by (simp add: added)
    from j have lt: "?a0 + j < length (method_objs st3)" by (simp add: len)
    from raw j obtain nm names where nm: "attribute (m_nds ! j) ''name'' = Inr nm"
      and mn: "method_name (method_at st3 (?a0 + j)) = pythonize nm"
      and rn: "response_names (m_nds ! j) = Inr names"
      and rw: "method_responses (method_at st3 (?a0 + j)) = map Name names" by blast
    from res in_added rw have ok: "\<forall>n \<in> set names. byname mc n \<noteq> None"
      and rr: "method_responses (method_at st' (?a0 + j)) = map (\<lambda>n. Ref (the (byname mc n))) names"
      and fl: "\<forall>n \<in> set names. the (byname mc n) < length (method_objs st3) \<longrightarrow>
           method_response (method_at st' (the (byname mc n)))"
      by blast+
    have each: "\<exists>b. byname mc n = Some b \<and> method_name (method_at st' b) = n \<and>
            method_response (method_at st' b)" if n: "n \<in> set names" for n
    proof -
      from ok n obtain b where b: "byname mc n = Some b" by auto
      with bn have bb: "b < ?a0 + length m_nds" "method_name (method_at st3 b) = n"
        by (auto simp: mc3)
      then have bl: "b < length (method_objs st3)" by (simp add: len)
      with fr bb have "method_name (method_at st' b) = n" by simp
      moreover from fl n b bl have "method_response (method_at st' b)" by auto
      ultimately show ?thesis using b by blast
    qed
    from fr lt mn have "method_name (method_at st' (?a0 + j)) = pythonize nm" by simp
    with nm rn rr each show "\<exists>nm names.
        attribute (m_nds ! j) ''name'' = Inr nm \<and>
        method_name (method_at st' (items mc ! j)) = pythonize nm \<and>
        response_names (m_nds ! j) = Inr names \<and>
        method_responses (method_at st' (items mc ! j)) = map (\<lambda>n. Ref (the (byname mc n))) names \<and>
        (\<forall>n \<in> set names. \<exists>b. byname mc n = Some b \<and> method_name (method_at st' b) = n \<and>
            method_response (method_at st' b))"
      unfolding ij by blast
  qed
qed

lemma resolve_responses_total:
  assumes raw: "method_responses (method_at st m) = map Name names"
  shows "(\<exists>st1. resolve_responses k m st = Some (Inr st1) \<and>
            (\<forall>n \<in> set names. byname (class_methods (klass_at st k)) n \<noteq> None)) \<or>
         (\<exists>n'. resolve_responses k m st = Some (Inl (KeyError n')) \<and>
            byname (class_methods (klass_at st k)) n' = None)"
proof (cases "comprehension (resolve_response st k) (map Name names)")
  case (Inl e)
  from comprehension_Inl [OF Inl] obtain n where "n \<in> set names"
    and "resolve_response st k (Name n) = Inl e" by auto
  then have "e = KeyError n \<and> byname (class_methods (klass_at st k)) n = None"
    by (auto simp: resolve_response_def lookup_def split: option.splits)
  with Inl raw show ?thesis by (auto simp: resolve_responses_def raises_def)
next
  case (Inr refs)
  from resolve_names(2) [OF Inr] Inr raw show ?thesis
    by (auto simp: resolve_responses_def returns_def)
qed

lemma resolve_loop_not_found:
  assumes "distinct rest" and "\<forall>m \<in> set rest. m < length (method_objs st)"
    and "\<forall>m \<in> set rest. \<exists>names. method_responses (method_at st m) = map Name names"
    and "m \<in> set rest" and "Name n \<in> set (method_responses (method_at st m))"
    and "byname (class_methods (klass_at st k)) n = None"
  shows "\<exists>n'. for_each (resolve_responses k) rest st = Some (Inl (KeyError n')) \<and>
           byname (class_methods (klass_at st k)) n' = None"
  using assms
proof (induction rest arbitrary: st)
  case Nil
  then show ?case by simp
next
  case (Cons m0 rest)
  from Cons.prems(3) obtain names0 where raw0: "method_responses (method_at st m0) = map Name names0"
    by auto
  from Cons.prems(2) have m0: "m0 < length (method_objs st)" by simp
  from resolve_responses_total [OF raw0, of k] show ?case
  proof (elim disjE exE conjE)
    fix n' assume "resolve_responses k m0 st = Some (Inl (KeyError n'))"
      and "byname (class_methods (klass_at st k)) n' = None"
    then show ?thesis by (auto simp: and_then_simps)
  next
    fix st1 assume r1: "resolve_responses k m0 st = Some (Inr st1)"
      and ok: "\<forall>n \<in> set names0. byname (class_methods (klass_at st k)) n \<noteq> None"
    note s1 = resolve_responses_Inr [OF r1 raw0 m0]
    have kl: "klass_at st1 k = klass_at st k" using s1(1) by (rule klass_at_cong)
    from Cons.prems(1) have d: "distinct rest" and mn: "m0 \<notin> set rest" by simp_all
    have "m \<noteq> m0"
    proof
      assume "m = m0"
      with Cons.prems(5) raw0 have "n \<in> set names0" by auto
      with ok Cons.prems(6) show False by auto
    qed
    with Cons.prems(4) have m: "m \<in> set rest" by simp
    have same: "method_responses (method_at st1 m') = method_responses (method_at st m')"
      if "m' \<in> set rest" for m'
    proof -
      from that mn have "m' \<noteq> m0" by auto
      moreover from that Cons.prems(2) have "m' < length (method_objs st)" by simp
      ultimately show ?thesis using s1(4) by simp
    qed
    have b1: "\<forall>m' \<in> set rest. m' < length (method_objs st1)"
      using Cons.prems(2) s1(2) by simp
    have raw1: "\<forall>m' \<in> set rest. \<exists>names. method_responses (method_at st1 m') = map Name names"
      using Cons.prems(3) same by simp
    have n1: "Name n \<in> set (method_responses (method_at st1 m))"
      using Cons.prems(5) same [OF m] by simp
    have u1: "byname (class_methods (klass_at st1 k)) n = None"
      using Cons.prems(6) by (simp add: kl)
    from Cons.IH [OF d b1 raw1 m n1 u1] r1 show ?thesis
      by (auto simp: and_then_simps kl)
  qed
qed

lemma load_class_not_found:
  assumes g: "get_class True c_nd st = Inr (st1, k)"
    and l: "load_fields c_nd (class_fields (klass_at st1 k)) domains = Some (Inr l)"
    and ms: "for_each (load_method True domains k) (children_named c_nd ''method'')
       (set_klass k (\<lambda>c. c\<lparr>class_fields := l\<rparr>) st1, []) = Some (Inr (st3, added))"
    and m: "m \<in> set added" and n: "Name n \<in> set (method_responses (method_at st3 m))"
    and u: "byname (class_methods (klass_at st3 k)) n = None"
  shows "\<exists>n'. load_class True domains c_nd st = Some (Inl (KeyError n')) \<and>
           byname (class_methods (klass_at st3 k)) n' = None"
proof -
  note reg = registered_after_methods [OF g ms]
  note pre = registered_resolve_prems [OF reg]
  from resolve_loop_not_found [OF pre m n u] obtain n' where
    "for_each (resolve_responses k) added st3 = Some (Inl (KeyError n'))"
    and "byname (class_methods (klass_at st3 k)) n' = None" by blast
  with g l ms show ?thesis
    by (auto simp: load_class_def and_then_simps)
qed

text \<open>
  C4. Where the class step of the primary document returns, the method registry of the
  new class holds one method per \<open>method\<close> node, in document order, and the
  responses of each method are the Method objects that the registry holds under the
  response names of its node, in the order of the \<open>response\<close> nodes; each of these
  objects has the name looked up and has \<open>response\<close> set. The names are looked up
  in the registry as it is after the loop over all \<open>method\<close> nodes, so a method
  declared later in the class is found. If, after that loop, a response name of a
  method added is no key of the registry, the class step raises \<open>KeyError\<close> for a
  name that is no key of the registry. The class step of an overlay creates no method,
  reads no response names, and leaves the responses and the response flag of every
  method as they are.
\<close>

theorem responses_resolved:
  "(load_class True domains c_nd st = Some (Inr st') \<and> k = length (class_objs st) \<and>
    mc = class_methods (klass_at st' k) \<and> m_nds = children_named c_nd ''method'' \<longrightarrow>
      length (items mc) = length m_nds \<and>
      (\<forall>j < length m_nds. \<exists>nm names.
         attribute (m_nds ! j) ''name'' = Inr nm \<and>
         method_name (method_at st' (items mc ! j)) = pythonize nm \<and>
         response_names (m_nds ! j) = Inr names \<and>
         method_responses (method_at st' (items mc ! j)) = map (\<lambda>n. Ref (the (byname mc n))) names \<and>
         (\<forall>n \<in> set names. \<exists>b. byname mc n = Some b \<and> method_name (method_at st' b) = n \<and>
             method_response (method_at st' b)))) \<and>
   (get_class True c_nd st = Inr (st1, k1) \<and>
    load_fields c_nd (class_fields (klass_at st1 k1)) domains = Some (Inr l) \<and>
    for_each (load_method True domains k1) (children_named c_nd ''method'')
       (set_klass k1 (\<lambda>c. c\<lparr>class_fields := l\<rparr>) st1, []) = Some (Inr (st3, added)) \<and>
    m \<in> set added \<and> Name n \<in> set (method_responses (method_at st3 m)) \<and>
    byname (class_methods (klass_at st3 k1)) n = None \<longrightarrow>
      (\<exists>n'. load_class True domains c_nd st = Some (Inl (KeyError n')) \<and>
            byname (class_methods (klass_at st3 k1)) n' = None)) \<and>
   (load_class False domains c_nd st = Some (Inr st') \<longrightarrow>
      length (method_objs st') = length (method_objs st) \<and>
      (\<forall>a < length (method_objs st).
         method_responses (method_at st' a) = method_responses (method_at st a) \<and>
         method_response (method_at st' a) = method_response (method_at st a)))"
proof (intro conjI impI)
  assume a: "load_class True domains c_nd st = Some (Inr st') \<and> k = length (class_objs st) \<and>
    mc = class_methods (klass_at st' k) \<and> m_nds = children_named c_nd ''method''"
  then have ld: "load_class True domains c_nd st = Some (Inr st')" and k: "k = length (class_objs st)"
    and mc: "mc = class_methods (klass_at st' k)" and m_nds: "m_nds = children_named c_nd ''method''"
    by simp_all
  show "length (items mc) = length m_nds" by (rule load_class_responses(1) [OF ld k mc m_nds])
  show "\<forall>j < length m_nds. \<exists>nm names.
         attribute (m_nds ! j) ''name'' = Inr nm \<and>
         method_name (method_at st' (items mc ! j)) = pythonize nm \<and>
         response_names (m_nds ! j) = Inr names \<and>
         method_responses (method_at st' (items mc ! j)) = map (\<lambda>n. Ref (the (byname mc n))) names \<and>
         (\<forall>n \<in> set names. \<exists>b. byname mc n = Some b \<and> method_name (method_at st' b) = n \<and>
             method_response (method_at st' b))"
    by (rule load_class_responses(2) [OF ld k mc m_nds])
next
  assume "get_class True c_nd st = Inr (st1, k1) \<and>
    load_fields c_nd (class_fields (klass_at st1 k1)) domains = Some (Inr l) \<and>
    for_each (load_method True domains k1) (children_named c_nd ''method'')
       (set_klass k1 (\<lambda>c. c\<lparr>class_fields := l\<rparr>) st1, []) = Some (Inr (st3, added)) \<and>
    m \<in> set added \<and> Name n \<in> set (method_responses (method_at st3 m)) \<and>
    byname (class_methods (klass_at st3 k1)) n = None"
  then show "\<exists>n'. load_class True domains c_nd st = Some (Inl (KeyError n')) \<and>
            byname (class_methods (klass_at st3 k1)) n' = None"
    using load_class_not_found [of c_nd st st1 k1 domains l st3 added m n] by blast
next
  assume "load_class False domains c_nd st = Some (Inr st')"
  then have o: "only_fields_added st st'" by (rule load_class_overlay)
  then show "length (method_objs st') = length (method_objs st)"
    by (simp add: only_fields_added_def)
  show "\<forall>a < length (method_objs st).
         method_responses (method_at st' a) = method_responses (method_at st a) \<and>
         method_response (method_at st' a) = method_response (method_at st a)"
  proof (intro allI impI)
    fix a assume "a < length (method_objs st)"
    with o have "method_at st' a = (method_at st a)\<lparr>method_fields := method_fields (method_at st' a)\<rparr>"
      by (simp add: only_fields_added_def)
    then have "method_responses (method_at st' a)
          = method_responses ((method_at st a)\<lparr>method_fields := method_fields (method_at st' a)\<rparr>)"
      and "method_response (method_at st' a)
          = method_response ((method_at st a)\<lparr>method_fields := method_fields (method_at st' a)\<rparr>)"
      by simp_all
    then show "method_responses (method_at st' a) = method_responses (method_at st a) \<and>
         method_response (method_at st' a) = method_response (method_at st a)" by simp
  qed
qed


theorem responses_resolved_witness:
  "(\<exists>st' b. load_class True [''path'' \<mapsto> ''shortstr''] primary_class (initial_store 0 8 ''amqp.xml'')
        = Some (Inr st') \<and>
      method_name (method_at st' (items (class_methods (klass_at st' 0)) ! 0)) = ''publish'' \<and>
      method_responses (method_at st' (items (class_methods (klass_at st' 0)) ! 0)) = [Ref b] \<and>
      byname (class_methods (klass_at st' 0)) ''publish_ok'' = Some b \<and>
      method_name (method_at st' b) = ''publish_ok'' \<and> method_response (method_at st' b)) \<and>
   (\<exists>n'. load_class True Map.empty orphan_class (initial_store 0 8 ''amqp.xml'')
        = Some (Inl (KeyError n'))) \<and>
   (\<exists>st st'. for_each load_root [(True, primary_root)] (initial_store 0 8 ''amqp.xml'') = Some (Inr st) \<and>
      load_class False Map.empty errata_field_class st = Some (Inr st') \<and>
      0 < length (method_objs st) \<and>
      method_responses (method_at st' 0) = method_responses (method_at st 0) \<and>
      method_response (method_at st' 0) = method_response (method_at st 0))"
proof -
  let ?d = "[''path'' \<mapsto> ''shortstr'']"
  let ?st = "initial_store 0 8 ''amqp.xml''"
  let ?ms = "children_named primary_class ''method''"
  have "\<exists>st'. load_class True ?d primary_class ?st = Some (Inr st')"
    by (simp add: eval_defs doc_defs)
  then obtain st' where ld: "load_class True ?d primary_class ?st = Some (Inr st')" ..
  let ?mc = "class_methods (klass_at st' 0)"
  have k: "0 = length (class_objs ?st)" by (simp add: initial_store_def)
  have len: "0 < length ?ms" by (simp add: eval_defs doc_defs)
  have nm: "attribute (?ms ! 0) ''name'' = Inr ''publish''"
    and rn: "response_names (?ms ! 0) = Inr [''publish_ok'']"
    and py: "pythonize ''publish'' = ''publish''"
    by (simp_all add: eval_defs doc_defs)
  from ld k have p1: "load_class True ?d primary_class ?st = Some (Inr st') \<and>
      0 = length (class_objs ?st) \<and> ?mc = class_methods (klass_at st' 0) \<and> ?ms = ?ms"
    by simp
  note t1 = responses_resolved [of ?d primary_class ?st st' 0 ?mc ?ms,
      THEN conjunct1, THEN mp, OF p1, THEN conjunct2, THEN spec, THEN mp, OF len]
  from t1 obtain nm' names where
    1: "attribute (?ms ! 0) ''name'' = Inr nm'"
    and 2: "method_name (method_at st' (items ?mc ! 0)) = pythonize nm'"
    and 3: "response_names (?ms ! 0) = Inr names"
    and 4: "method_responses (method_at st' (items ?mc ! 0)) = map (\<lambda>n. Ref (the (byname ?mc n))) names"
    and 5: "\<forall>n \<in> set names. \<exists>b. byname ?mc n = Some b \<and> method_name (method_at st' b) = n \<and>
             method_response (method_at st' b)"
    by blast
  from 1 nm have nm': "nm' = ''publish''" by simp
  from 3 rn have names: "names = [''publish_ok'']" by simp
  from 5 names obtain b where b: "byname ?mc ''publish_ok'' = Some b"
    "method_name (method_at st' b) = ''publish_ok''" "method_response (method_at st' b)"
    by auto
  from 4 names b(1) have r: "method_responses (method_at st' (items ?mc ! 0)) = [Ref b]" by simp
  from 2 nm' py have n: "method_name (method_at st' (items ?mc ! 0)) = ''publish''" by simp
  have first: "\<exists>st' b. load_class True ?d primary_class ?st = Some (Inr st') \<and>
      method_name (method_at st' (items (class_methods (klass_at st' 0)) ! 0)) = ''publish'' \<and>
      method_responses (method_at st' (items (class_methods (klass_at st' 0)) ! 0)) = [Ref b] \<and>
      byname (class_methods (klass_at st' 0)) ''publish_ok'' = Some b \<and>
      method_name (method_at st' b) = ''publish_ok'' \<and> method_response (method_at st' b)"
    using ld n r b by blast
  have "\<exists>st1 l st3 added m.
    get_class True orphan_class ?st = Inr (st1, 0) \<and>
    load_fields orphan_class (class_fields (klass_at st1 0)) Map.empty = Some (Inr l) \<and>
    for_each (load_method True Map.empty 0) (children_named orphan_class ''method'')
       (set_klass 0 (\<lambda>c. c\<lparr>class_fields := l\<rparr>) st1, []) = Some (Inr (st3, added)) \<and>
    m \<in> set added \<and> Name ''missing'' \<in> set (method_responses (method_at st3 m)) \<and>
    byname (class_methods (klass_at st3 0)) ''missing'' = None"
    by (simp add: eval_defs doc_defs)
  then obtain st1 l st3 added m where p2:
    "get_class True orphan_class ?st = Inr (st1, 0) \<and>
    load_fields orphan_class (class_fields (klass_at st1 0)) Map.empty = Some (Inr l) \<and>
    for_each (load_method True Map.empty 0) (children_named orphan_class ''method'')
       (set_klass 0 (\<lambda>c. c\<lparr>class_fields := l\<rparr>) st1, []) = Some (Inr (st3, added)) \<and>
    m \<in> set added \<and> Name ''missing'' \<in> set (method_responses (method_at st3 m)) \<and>
    byname (class_methods (klass_at st3 0)) ''missing'' = None"
    by blast
  note t2 = responses_resolved [of Map.empty orphan_class ?st _ _ _ _ st1 0 l st3 added m "''missing''",
      THEN conjunct2, THEN conjunct1, THEN mp, OF p2]
  from t2 have second: "\<exists>n'. load_class True Map.empty orphan_class ?st = Some (Inl (KeyError n'))"
    by blast
  have "\<exists>st. for_each load_root [(True, primary_root)] ?st = Some (Inr st) \<and>
     (\<exists>st'. load_class False Map.empty errata_field_class st = Some (Inr st')) \<and>
     0 < length (method_objs st)"
    by (simp add: eval_defs doc_defs)
  then obtain st st2 where st: "for_each load_root [(True, primary_root)] ?st = Some (Inr st)"
    and st2: "load_class False Map.empty errata_field_class st = Some (Inr st2)"
    and pos: "0 < length (method_objs st)" by blast
  note t3 = responses_resolved [of Map.empty errata_field_class st st2,
      THEN conjunct2, THEN conjunct2, THEN mp, OF st2, THEN conjunct2, THEN spec, THEN mp, OF pos]
  from t3 have "method_responses (method_at st2 0) = method_responses (method_at st 0) \<and>
      method_response (method_at st2 0) = method_response (method_at st 0)" .
  with st st2 pos have third: "\<exists>st st'. for_each load_root [(True, primary_root)] ?st = Some (Inr st) \<and>
      load_class False Map.empty errata_field_class st = Some (Inr st') \<and>
      0 < length (method_objs st) \<and>
      method_responses (method_at st' 0) = method_responses (method_at st 0) \<and>
      method_response (method_at st' 0) = method_response (method_at st 0)" by blast
  from first second third show ?thesis by blast
qed



end
